theory Spec2Isabelle
  imports Main "HOL-Library.Word" "HOL-Library.Monad_Syntax"
begin

unbundle bit_operations_syntax

section \<open>Data model (sockdiag.h)\<close>

text \<open>
  \<^verbatim>\<open>struct sample\<close>: one observation of a TCP connection. The two address arrays hold
  16 bytes each; \<open>info\<close> is the \<^verbatim>\<open>struct tcp_info\<close> block, kept as raw bytes.
\<close>

record sample =
  family :: "8 word"
  saddr :: "8 word list"
  sport :: "16 word"
  daddr :: "8 word list"
  dport :: "16 word"
  info :: "8 word list"

text \<open>
  \<^verbatim>\<open>struct samples\<close>: the pointer \<open>sample\<close> is \<open>None\<close> for \<^verbatim>\<open>NULL\<close> and
  \<open>Some slots\<close> for an allocated block; a slot is \<open>None\<close> until it has been written
  (\<^verbatim>\<open>realloc\<close> does not initialise new memory). \<open>len\<close> and \<open>cap\<close> are
  \<^verbatim>\<open>uint32_t\<close>.
\<close>

record samples =
  sample :: "sample option list option"
  len :: "32 word"
  cap :: "32 word"

section \<open>Host, memory and environment\<close>

text \<open>
  What the C source leaves to the platform: the byte order of the host and
  \<^verbatim>\<open>sizeof(struct tcp_info)\<close> of the kernel headers the program was compiled against.
\<close>

record host =
  little_endian :: bool
  sizeof_tcp_info :: nat

text \<open>
  The receive buffer \<^verbatim>\<open>uint8_t b[32*1024]\<close> of \<^verbatim>\<open>sockdiag_sample\<close> is a map from
  index to byte. An access is \<open>None\<close> when it is a memory fault (undefined behaviour in C):
  a read outside the buffer, a write through a null pointer or outside the allocated block.
\<close>

type_synonym mem = "nat \<Rightarrow> 8 word"

definition sizeof_b :: nat where
  "sizeof_b = 32 * 1024"

definition rd :: "mem \<Rightarrow> nat \<Rightarrow> nat \<Rightarrow> 8 word list option" where
  "rd b off k = (if off + k \<le> sizeof_b then Some (map b [off..<off + k]) else None)"

fun le_nat :: "8 word list \<Rightarrow> nat" where
  "le_nat [] = 0"
| "le_nat (x # xs) = unat x + 256 * le_nat xs"

definition native :: "host \<Rightarrow> 8 word list \<Rightarrow> nat" where
  "native h bs = le_nat (if little_endian h then bs else rev bs)"

definition rd_u8 :: "mem \<Rightarrow> nat \<Rightarrow> 8 word option" where
  "rd_u8 b off = do { bs \<leftarrow> rd b off 1; Some (hd bs) }"

definition rd_u16 :: "host \<Rightarrow> mem \<Rightarrow> nat \<Rightarrow> 16 word option" where
  "rd_u16 h b off = do { bs \<leftarrow> rd b off 2; Some (of_nat (native h bs)) }"

definition rd_u32 :: "host \<Rightarrow> mem \<Rightarrow> nat \<Rightarrow> 32 word option" where
  "rd_u32 h b off = do { bs \<leftarrow> rd b off 4; Some (of_nat (native h bs)) }"

definition htons :: "host \<Rightarrow> 16 word \<Rightarrow> 16 word" where
  "htons h x = (if little_endian h then push_bit 8 x OR drop_bit 8 x else x)"

definition memcpy :: "8 word list \<Rightarrow> 8 word list \<Rightarrow> nat \<Rightarrow> 8 word list" where
  "memcpy dst src n = take n src @ drop n dst"

subsection \<open>Constants of the Linux headers\<close>

text \<open>
  Values of \<^verbatim>\<open>linux/netlink.h\<close>, \<^verbatim>\<open>linux/rtnetlink.h\<close>, \<^verbatim>\<open>linux/sock_diag.h\<close>,
  \<^verbatim>\<open>linux/inet_diag.h\<close>, \<^verbatim>\<open>sys/socket.h\<close>, \<^verbatim>\<open>netinet/in.h\<close> and \<^verbatim>\<open>errno.h\<close>,
  which the source includes. They are fixed by the Linux ABI and are not part of the
  repository: the message types, flags and families, and the sizes of the structures
  \<^verbatim>\<open>nlmsghdr\<close> (16), \<^verbatim>\<open>nlmsgerr\<close> (an \<^verbatim>\<open>int\<close> and a header, 20),
  \<^verbatim>\<open>inet_diag_msg\<close> (72), \<^verbatim>\<open>inet_diag_req_v2\<close> (56), \<^verbatim>\<open>rtattr\<close> (4) and
  \<^verbatim>\<open>sockaddr_nl\<close> (12).
\<close>

definition AF_INET :: "8 word" where "AF_INET = 2"
definition AF_NETLINK :: "16 word" where "AF_NETLINK = 16"
definition IPPROTO_TCP :: "8 word" where "IPPROTO_TCP = 6"
definition INET_DIAG_INFO :: nat where "INET_DIAG_INFO = 2"
definition NLMSG_ERROR :: "16 word" where "NLMSG_ERROR = 2"
definition NLMSG_DONE :: "16 word" where "NLMSG_DONE = 3"
definition NLM_F_REQUEST :: "16 word" where "NLM_F_REQUEST = 1"
definition NLM_F_DUMP :: "16 word" where "NLM_F_DUMP = 768"
definition SOCK_DIAG_BY_FAMILY :: "16 word" where "SOCK_DIAG_BY_FAMILY = 20"
definition ENODATA :: int where "ENODATA = 61"

definition sizeof_nlmsghdr :: nat where "sizeof_nlmsghdr = 16"
definition sizeof_nlmsgerr :: nat where "sizeof_nlmsgerr = 20"
definition sizeof_inet_diag_msg :: nat where "sizeof_inet_diag_msg = 72"
definition sizeof_inet_diag_req_v2 :: nat where "sizeof_inet_diag_req_v2 = 56"
definition sizeof_rtattr :: nat where "sizeof_rtattr = 4"
definition sizeof_sockaddr_nl :: nat where "sizeof_sockaddr_nl = 12"

text \<open>Kernel tcp states (the enum of sockdiag.c).\<close>

definition TCP_ESTABLISHED :: nat where "TCP_ESTABLISHED = 1"

text \<open>
  The alignment and length macros. \<^verbatim>\<open>(len + 3U) & ~3U\<close> is computed on unsigned
  32-bit values; its arguments here are at most 65535 (an \<^verbatim>\<open>unsigned short\<close>) or at
  most the number of bytes received, so it never wraps and is rounding up to a multiple of 4.
\<close>

definition NLMSG_ALIGN :: "nat \<Rightarrow> nat" where
  "NLMSG_ALIGN n = (n + 3) div 4 * 4"

definition NLMSG_HDRLEN :: nat where
  "NLMSG_HDRLEN = NLMSG_ALIGN sizeof_nlmsghdr"

definition NLMSG_LENGTH :: "nat \<Rightarrow> nat" where
  "NLMSG_LENGTH n = n + NLMSG_HDRLEN"

definition RTA_ALIGN :: "nat \<Rightarrow> nat" where
  "RTA_ALIGN n = (n + 3) div 4 * 4"

definition RTA_LENGTH :: "nat \<Rightarrow> nat" where
  "RTA_LENGTH n = RTA_ALIGN sizeof_rtattr + n"

subsection \<open>The outside world\<close>

record sockaddr_nl =
  nl_family :: "16 word"
  nl_pad :: "16 word"
  nl_pid :: "32 word"
  nl_groups :: "32 word"

record inet_diag_sockid =
  idiag_sport :: "16 word"
  idiag_dport :: "16 word"
  idiag_src :: "32 word list"
  idiag_dst :: "32 word list"
  idiag_if :: "32 word"
  idiag_cookie :: "32 word list"

record inet_diag_req_v2 =
  sdiag_family :: "8 word"
  sdiag_protocol :: "8 word"
  idiag_ext :: "8 word"
  pad :: "8 word"
  idiag_states :: "32 word"
  id :: inet_diag_sockid

record nlmsghdr =
  nlmsg_len :: "32 word"
  nlmsg_type :: "16 word"
  nlmsg_flags :: "16 word"
  nlmsg_seq :: "32 word"
  nlmsg_pid :: "32 word"

datatype iov_base = Base_nlmsghdr nlmsghdr | Base_req inet_diag_req_v2

record iovec =
  iov_base :: iov_base
  iov_len :: nat

record msghdr =
  msg_name :: sockaddr_nl
  msg_namelen :: nat
  msg_iov :: "iovec list"
  msg_iovlen :: nat

datatype recv_result = RecvErr | RecvData "8 word list"

text \<open>
  The environment of one call: what \<^verbatim>\<open>sendmsg\<close> returns for a message, what the k-th
  \<^verbatim>\<open>recv\<close> on the descriptor delivers (an error, or a datagram), which requests to
  \<^verbatim>\<open>realloc\<close> succeed (by number of elements asked for), and the bytes the
  uninitialised buffer \<^verbatim>\<open>b\<close> happens to hold.
\<close>

record world =
  sendmsg :: "int \<Rightarrow> msghdr \<Rightarrow> int"
  recv :: "int \<Rightarrow> nat \<Rightarrow> recv_result"
  realloc_ok :: "32 word \<Rightarrow> bool"
  stack :: mem

section \<open>Request construction (send_request)\<close>

definition zero_sockid :: inet_diag_sockid where
  "zero_sockid = \<lparr>idiag_sport = 0, idiag_dport = 0, idiag_src = replicate 4 0,
     idiag_dst = replicate 4 0, idiag_if = 0, idiag_cookie = replicate 2 0\<rparr>"

text \<open>The three structures \<^verbatim>\<open>send_request\<close> fills in, each zeroed first.\<close>

definition request_addr :: sockaddr_nl where
  "request_addr = \<lparr>nl_family = AF_NETLINK, nl_pad = 0, nl_pid = 0, nl_groups = 0\<rparr>"

definition request_body :: "8 word \<Rightarrow> inet_diag_req_v2" where
  "request_body fam =
     \<lparr>sdiag_family = fam, sdiag_protocol = IPPROTO_TCP,
      idiag_ext = 0 OR push_bit (INET_DIAG_INFO - 1) 1, pad = 0,
      idiag_states = push_bit TCP_ESTABLISHED 1, id = zero_sockid\<rparr>"

definition request_header :: nlmsghdr where
  "request_header =
     \<lparr>nlmsg_len = of_nat (NLMSG_LENGTH sizeof_inet_diag_req_v2),
      nlmsg_type = SOCK_DIAG_BY_FAMILY, nlmsg_flags = NLM_F_DUMP OR NLM_F_REQUEST,
      nlmsg_seq = 0, nlmsg_pid = 0\<rparr>"

definition request_msg :: "8 word \<Rightarrow> msghdr" where
  "request_msg fam =
     \<lparr>msg_name = request_addr, msg_namelen = sizeof_sockaddr_nl,
      msg_iov = [\<lparr>iov_base = Base_nlmsghdr request_header, iov_len = sizeof_nlmsghdr\<rparr>,
                 \<lparr>iov_base = Base_req (request_body fam), iov_len = sizeof_inet_diag_req_v2\<rparr>],
      msg_iovlen = 2\<rparr>"

definition send_request :: "world \<Rightarrow> int \<Rightarrow> 8 word \<Rightarrow> int" where
  "send_request w fd fam = sendmsg w fd (request_msg fam)"

section \<open>The growable store (grow, and the append of parse_response)\<close>

definition INIT_CAP :: "32 word" where
  "INIT_CAP = 16"

text \<open>
  \<^verbatim>\<open>realloc(p, n * sizeof(struct sample))\<close>: on failure the result is \<^verbatim>\<open>NULL\<close>; on
  success a block of \<open>n\<close> slots that keeps the old contents up to the smaller of the two
  sizes. The size is computed in \<^verbatim>\<open>size_t\<close> and does not wrap.
\<close>

definition realloc :: "world \<Rightarrow> sample option list option \<Rightarrow> 32 word \<Rightarrow> sample option list option" where
  "realloc w p n =
     (if realloc_ok w n
      then Some (case p of
                   None \<Rightarrow> replicate (unat n) None
                 | Some old \<Rightarrow> take (unat n) old @ replicate (unat n - length old) None)
      else None)"

definition grow :: "world \<Rightarrow> samples \<Rightarrow> samples" where
  "grow w s =
     (let c = (if cap s = 0 then INIT_CAP else cap s * 2)
      in s\<lparr>cap := c, sample := realloc w (sample s) c\<rparr>)"

text \<open>\<^verbatim>\<open>samples->sample[samples->len] = x\<close>\<close>

definition put_sample :: "samples \<Rightarrow> sample \<Rightarrow> samples option" where
  "put_sample s x =
     (case sample s of
        None \<Rightarrow> None
      | Some slots \<Rightarrow>
          if unat (len s) < length slots
          then Some (s\<lparr>sample := Some (slots[unat (len s) := Some x])\<rparr>)
          else None)"

text \<open>
  Lines 95 to 111 of \<^verbatim>\<open>parse_response\<close> for a sample value \<open>x\<close>: grow when
  \<^verbatim>\<open>len >= cap\<close>, write the slot at \<^verbatim>\<open>len\<close>, increment \<^verbatim>\<open>len\<close>.
\<close>

definition append_sample :: "world \<Rightarrow> samples \<Rightarrow> sample \<Rightarrow> samples option" where
  "append_sample w s x =
     do { s' \<leftarrow> put_sample (if len s \<ge> cap s then grow w s else s) x;
          Some (s'\<lparr>len := len s' + 1\<rparr>) }"

section \<open>Response parsing (parse_response)\<close>

text \<open>
  The value written for one \<^verbatim>\<open>INET_DIAG_INFO\<close> attribute at offset \<open>aoff\<close> of a message
  \<^verbatim>\<open>struct inet_diag_msg\<close> at offset \<open>moff\<close>: the compound literal and the two
  \<^verbatim>\<open>memcpy\<close> calls. \<^verbatim>\<open>idiag_family\<close> is at offset 0 of the message, \<^verbatim>\<open>id.idiag_sport\<close>
  at 4, \<^verbatim>\<open>id.idiag_dport\<close> at 6, \<^verbatim>\<open>id.idiag_src\<close> at 8 and \<^verbatim>\<open>id.idiag_dst\<close> at 24.
  \<^verbatim>\<open>*t\<close> reads \<^verbatim>\<open>sizeof(struct tcp_info)\<close> bytes at \<^verbatim>\<open>RTA_DATA(attr)\<close>, whatever
  \<^verbatim>\<open>rta_len\<close> says.
\<close>

definition read_sample :: "host \<Rightarrow> mem \<Rightarrow> nat \<Rightarrow> nat \<Rightarrow> sample option" where
  "read_sample h b moff aoff =
     do { fam \<leftarrow> rd_u8 b moff;
          sp \<leftarrow> rd_u16 h b (moff + 4);
          dp \<leftarrow> rd_u16 h b (moff + 6);
          t \<leftarrow> rd b (aoff + RTA_LENGTH 0) (sizeof_tcp_info h);
          let al = (if fam = AF_INET then 4 else 16);
          src \<leftarrow> rd b (moff + 8) al;
          dst \<leftarrow> rd b (moff + 24) al;
          Some \<lparr>family = fam, saddr = memcpy (replicate 16 0) src al, sport = htons h sp,
                daddr = memcpy (replicate 16 0) dst al, dport = htons h dp, info = t\<rparr> }"

text \<open>
  \<^verbatim>\<open>RTA_OK(attr, rtalen)\<close>: the length field is read only when at least a header remains.
  \<^verbatim>\<open>rta_len\<close> is an \<^verbatim>\<open>unsigned short\<close>, promoted to \<^verbatim>\<open>int\<close> for the comparisons.
\<close>

definition RTA_OK :: "host \<Rightarrow> mem \<Rightarrow> nat \<Rightarrow> int \<Rightarrow> bool option" where
  "RTA_OK h b aoff rtalen =
     (if rtalen \<ge> int sizeof_rtattr
      then do { rta_len \<leftarrow> rd_u16 h b aoff;
                Some (unat rta_len \<ge> sizeof_rtattr \<and> int (unat rta_len) \<le> rtalen) }
      else Some False)"

text \<open>
  \<^verbatim>\<open>RTA_NEXT(attr, rtalen)\<close>: the remaining length drops by the aligned attribute length (it
  may become negative), the attribute pointer advances by it.
\<close>

definition RTA_NEXT :: "host \<Rightarrow> mem \<Rightarrow> nat \<Rightarrow> int \<Rightarrow> (nat \<times> int) option" where
  "RTA_NEXT h b aoff rtalen =
     do { rta_len \<leftarrow> rd_u16 h b aoff;
          Some (aoff + RTA_ALIGN (unat rta_len), rtalen - int (RTA_ALIGN (unat rta_len))) }"

text \<open>
  The loop of \<^verbatim>\<open>parse_response\<close>. For an \<^verbatim>\<open>INET_DIAG_INFO\<close> attribute the
  source grows the store, reads the message and the attribute, and writes; here the reads
  come first. A faulting read or write gives \<open>None\<close> in either order, and nothing else
  of the store is visible then.
\<close>

function rta_walk :: "host \<Rightarrow> world \<Rightarrow> mem \<Rightarrow> nat \<Rightarrow> nat \<Rightarrow> int \<Rightarrow> samples \<Rightarrow> samples option" where
  "rta_walk h w b moff aoff rtalen s =
     do { ok \<leftarrow> RTA_OK h b aoff rtalen;
          if ok
          then do { rta_type \<leftarrow> rd_u16 h b (aoff + 2);
                    s' \<leftarrow> (if unat rta_type = INET_DIAG_INFO
                           then do { x \<leftarrow> read_sample h b moff aoff; append_sample w s x }
                           else Some s);
                    (aoff', rtalen') \<leftarrow> RTA_NEXT h b aoff rtalen;
                    rta_walk h w b moff aoff' rtalen' s' }
          else Some s }"
  by pat_completeness auto
termination
proof (relation "measure (\<lambda>(h, w, b, moff, aoff, rtalen, s). nat rtalen)")
  show "wf (measure (\<lambda>(h, w, b, moff, aoff, rtalen, s). nat rtalen))"
    by simp
next
  fix h :: host and w :: world and b :: mem and moff aoff :: nat and rtalen :: int
    and s s' :: samples and ok :: bool and rta_type :: "16 word" and nx :: "nat \<times> int"
    and aoff' :: nat and rtalen' :: int
  assume ok: "RTA_OK h b aoff rtalen = Some ok" "ok"
    and nx: "RTA_NEXT h b aoff rtalen = Some nx" "(aoff', rtalen') = nx"
  from ok obtain l where l: "rd_u16 h b aoff = Some l" "4 \<le> unat l" "4 \<le> rtalen"
    by (auto simp: RTA_OK_def sizeof_rtattr_def split: if_splits bind_splits)
  from nx l have "rtalen' = rtalen - int (RTA_ALIGN (unat l))"
    by (auto simp: RTA_NEXT_def)
  moreover from l have "4 \<le> RTA_ALIGN (unat l)"
    by (simp add: RTA_ALIGN_def)
  ultimately show "((h, w, b, moff, aoff', rtalen', s'), (h, w, b, moff, aoff, rtalen, s))
      \<in> measure (\<lambda>(h, w, b, moff, aoff, rtalen, s). nat rtalen)"
    using l by simp
qed

text \<open>\<^verbatim>\<open>attr = (struct rtattr*) (msg+1)\<close>: the first attribute follows the message.\<close>

definition parse_response :: "host \<Rightarrow> world \<Rightarrow> mem \<Rightarrow> nat \<Rightarrow> int \<Rightarrow> samples \<Rightarrow> samples option" where
  "parse_response h w b moff rtalen s =
     rta_walk h w b moff (moff + sizeof_inet_diag_msg) rtalen s"

section \<open>The receive loop (sockdiag_sample)\<close>

text \<open>
  \<^verbatim>\<open>NLMSG_OK(h, n)\<close> and \<^verbatim>\<open>NLMSG_NEXT(h, n)\<close>, with \<^verbatim>\<open>nlmsg_len\<close> at offset 0 of the
  header. \<^verbatim>\<open>n\<close> is an \<^verbatim>\<open>int\<close>; it is at least 16 where it is compared with the
  unsigned \<^verbatim>\<open>nlmsg_len\<close>.
\<close>

definition NLMSG_OK :: "host \<Rightarrow> mem \<Rightarrow> nat \<Rightarrow> int \<Rightarrow> bool option" where
  "NLMSG_OK h b hoff n =
     (if n \<ge> int sizeof_nlmsghdr
      then do { l \<leftarrow> rd_u32 h b hoff;
                Some (unat l \<ge> sizeof_nlmsghdr \<and> int (unat l) \<le> n) }
      else Some False)"

definition NLMSG_NEXT :: "host \<Rightarrow> mem \<Rightarrow> nat \<Rightarrow> int \<Rightarrow> (nat \<times> int) option" where
  "NLMSG_NEXT h b hoff n =
     do { l \<leftarrow> rd_u32 h b hoff;
          Some (hoff + NLMSG_ALIGN (unat l), n - int (NLMSG_ALIGN (unat l))) }"

text \<open>
  What the walk over the envelopes of one datagram ends with: the datagram is used up and
  the loop receives again, or \<^verbatim>\<open>NLMSG_DONE\<close> was met (return 0), or \<^verbatim>\<open>NLMSG_ERROR\<close>
  was met (\<^verbatim>\<open>errno\<close> is assigned, return -1).
\<close>

datatype walk = More samples | Done samples | Failed int samples

text \<open>
  The inner \<^verbatim>\<open>while (NLMSG_OK(h, n))\<close>. \<^verbatim>\<open>nlmsg_type\<close> is at offset 4 of the header,
  \<^verbatim>\<open>NLMSG_DATA(h)\<close> is \<^verbatim>\<open>NLMSG_HDRLEN\<close> bytes after it, and \<^verbatim>\<open>error\<close> is the first
  field of \<^verbatim>\<open>struct nlmsgerr\<close>. The subtraction for \<^verbatim>\<open>rl\<close> is unsigned and its result
  is converted to \<^verbatim>\<open>int\<close>: it wraps to a negative value for a short envelope.
  \<^verbatim>\<open>-e->error\<close> is the two's complement negation of a 32-bit \<^verbatim>\<open>int\<close>.
\<close>

function nlmsg_walk :: "host \<Rightarrow> world \<Rightarrow> mem \<Rightarrow> nat \<Rightarrow> int \<Rightarrow> samples \<Rightarrow> walk option" where
  "nlmsg_walk h w b hoff n s =
     do { ok \<leftarrow> NLMSG_OK h b hoff n;
          if ok
          then do { ty \<leftarrow> rd_u16 h b (hoff + 4);
                    if ty = NLMSG_DONE then Some (Done s)
                    else if ty = NLMSG_ERROR
                    then do { l \<leftarrow> rd_u32 h b hoff;
                              if unat l < NLMSG_LENGTH sizeof_nlmsgerr
                              then Some (Failed ENODATA s)
                              else do { e \<leftarrow> rd_u32 h b (hoff + NLMSG_HDRLEN);
                                        Some (Failed (sint (- e)) s) } }
                    else do { l \<leftarrow> rd_u32 h b hoff;
                              let rl = sint (l - of_nat (NLMSG_LENGTH sizeof_inet_diag_msg));
                              s' \<leftarrow> (if rl > 0
                                     then parse_response h w b (hoff + NLMSG_HDRLEN) rl s
                                     else Some s);
                              (hoff', n') \<leftarrow> NLMSG_NEXT h b hoff n;
                              nlmsg_walk h w b hoff' n' s' } }
          else Some (More s) }"
  by pat_completeness auto
termination
proof (relation "measure (\<lambda>(h, w, b, hoff, n, s). nat n)")
  show "wf (measure (\<lambda>(h, w, b, hoff, n, s). nat n))"
    by simp
next
  fix h :: host and w :: world and b :: mem and hoff :: nat and n :: int
    and s s' :: samples and ok :: bool and nx :: "nat \<times> int"
    and hoff' :: nat and n' :: int
  assume ok: "NLMSG_OK h b hoff n = Some ok" "ok"
    and nx: "NLMSG_NEXT h b hoff n = Some nx" "(hoff', n') = nx"
  from ok obtain l where l: "rd_u32 h b hoff = Some l" "16 \<le> unat l" "16 \<le> n"
    by (auto simp: NLMSG_OK_def sizeof_nlmsghdr_def split: if_splits bind_splits)
  from nx l have "n' = n - int (NLMSG_ALIGN (unat l))"
    by (auto simp: NLMSG_NEXT_def)
  moreover from l have "16 \<le> NLMSG_ALIGN (unat l)"
    by (simp add: NLMSG_ALIGN_def)
  ultimately show "((h, w, b, hoff', n', s'), (h, w, b, hoff, n, s))
      \<in> measure (\<lambda>(h, w, b, hoff, n, s). nat n)"
    using l by simp
qed

text \<open>
  \<^verbatim>\<open>recv(fd, b, sizeof(b), 0)\<close> on a datagram socket: the datagram, cut to the size of
  the buffer, overwrites the start of \<open>b\<close>; the rest of \<open>b\<close> keeps what it held.
\<close>

definition recv_into :: "mem \<Rightarrow> 8 word list \<Rightarrow> mem" where
  "recv_into b d = (\<lambda>i. if i < min (length d) sizeof_b then d ! i else b i)"

text \<open>
  How a call ends: with a memory fault, or by returning \<open>ret\<close>, with \<open>err\<close> the value
  the function assigned to \<^verbatim>\<open>errno\<close> (if it did), \<open>store\<close> the final
  \<^verbatim>\<open>*samples\<close> and \<open>recvs\<close> the number of calls to \<^verbatim>\<open>recv\<close> made.
\<close>

datatype outcome = Fault | Return (ret: int) (err: "int option") (store: samples) (recvs: nat)

text \<open>
  The outer \<^verbatim>\<open>while (1)\<close>, at its k-th iteration. It need not end: the result is
  \<open>None\<close> when it runs forever.
\<close>

partial_function (option) drain :: "host \<Rightarrow> world \<Rightarrow> int \<Rightarrow> mem \<Rightarrow> nat \<Rightarrow> samples \<Rightarrow> outcome option" where
  "drain h w fd b k s =
     (case recv w fd k of
        RecvErr \<Rightarrow> Some (Return (- 1) None s (Suc k))
      | RecvData d \<Rightarrow>
          (case nlmsg_walk h w (recv_into b d) 0 (int (min (length d) sizeof_b)) s of
             None \<Rightarrow> Some Fault
           | Some (Done s') \<Rightarrow> Some (Return 0 None s' (Suc k))
           | Some (Failed e s') \<Rightarrow> Some (Return (- 1) (Some e) s' (Suc k))
           | Some (More s') \<Rightarrow> drain h w fd (recv_into b d) (Suc k) s'))"

definition empty_samples :: samples where
  "empty_samples = \<lparr>sample = None, len = 0, cap = 0\<rparr>"

definition sockdiag_sample :: "host \<Rightarrow> world \<Rightarrow> int \<Rightarrow> 8 word \<Rightarrow> samples \<Rightarrow> outcome option" where
  "sockdiag_sample h w fd fam s =
     (if send_request w fd fam < 0
      then Some (Return (- 1) None s 0)
      else drain h w fd (stack w) 0 (grow w empty_samples))"

declare rta_walk.simps [simp del]
declare nlmsg_walk.simps [simp del]

section \<open>Wire images of messages\<close>

text \<open>
  Byte images of what the kernel sends, used to state properties of the parser on messages
  rather than on raw memory. \<open>holds b off bs\<close>: the bytes \<open>bs\<close> lie in \<open>b\<close> from
  offset \<open>off\<close> on.
\<close>

definition holds :: "mem \<Rightarrow> nat \<Rightarrow> 8 word list \<Rightarrow> bool" where
  "holds b off bs = (map b [off..<off + length bs] = bs)"

text \<open>An integer field of \<open>k\<close> bytes in host byte order:\<close>

fun enc_le :: "nat \<Rightarrow> nat \<Rightarrow> 8 word list" where
  "enc_le 0 v = []"
| "enc_le (Suc k) v = of_nat v # enc_le k (v div 256)"

definition enc_native :: "host \<Rightarrow> nat \<Rightarrow> nat \<Rightarrow> 8 word list" where
  "enc_native h k v = (if little_endian h then enc_le k v else rev (enc_le k v))"

text \<open>A port on the wire, in network byte order.\<close>

definition enc_port :: "16 word \<Rightarrow> 8 word list" where
  "enc_port p = [ucast (drop_bit 8 p), ucast p]"

text \<open>
  An attribute has a type and a payload. On the wire: \<^verbatim>\<open>rta_len\<close> (header and payload),
  \<^verbatim>\<open>rta_type\<close>, the payload, and the padding up to the next multiple of 4, whose bytes
  are not part of the attribute and may hold anything.
\<close>

datatype attr = Attr (attr_type: nat) (attr_payload: "8 word list") (attr_pad: "8 word list")

definition rtattr_bytes :: "host \<Rightarrow> attr \<Rightarrow> 8 word list" where
  "rtattr_bytes h a =
     enc_native h 2 (4 + length (attr_payload a)) @ enc_native h 2 (attr_type a) @ attr_payload a
       @ attr_pad a"

definition attrs_bytes :: "host \<Rightarrow> attr list \<Rightarrow> 8 word list" where
  "attrs_bytes h as = concat (map (rtattr_bytes h) as)"

text \<open>
  The connection a \<^verbatim>\<open>struct inet_diag_msg\<close> describes, and the 72 bytes of the structure:
  the family; state, timer and retrans (\<open>c_state\<close>, 3 bytes); the ports and 16 bytes of
  source and of destination address from the socket id; and the rest (\<open>c_rest\<close>, 32 bytes:
  interface and cookie of the socket id, then expires, rqueue, wqueue, uid and inode).
  Every sequence of 72 bytes is the image of a connection (\<open>conn_of\<close> below).
\<close>

record conn =
  c_family :: "8 word"
  c_state :: "8 word list"
  c_sport :: "16 word"
  c_dport :: "16 word"
  c_src :: "8 word list"
  c_dst :: "8 word list"
  c_rest :: "8 word list"

definition inet_diag_msg_bytes :: "conn \<Rightarrow> 8 word list" where
  "inet_diag_msg_bytes c =
     [c_family c] @ c_state c @ enc_port (c_sport c) @ enc_port (c_dport c) @ c_src c @ c_dst c
       @ c_rest c"

text \<open>The connection that 72 bytes describe, the ports read in network byte order.\<close>

definition dec_port :: "8 word list \<Rightarrow> 16 word" where
  "dec_port bs = push_bit 8 (ucast (bs ! 0)) OR ucast (bs ! 1)"

definition conn_of :: "8 word list \<Rightarrow> conn" where
  "conn_of bs =
     \<lparr>c_family = bs ! 0, c_state = take 3 (drop 1 bs),
      c_sport = dec_port (take 2 (drop 4 bs)), c_dport = dec_port (take 2 (drop 6 bs)),
      c_src = take 16 (drop 8 bs), c_dst = take 16 (drop 24 bs), c_rest = drop 40 bs\<rparr>"

text \<open>
  An envelope: \<^verbatim>\<open>nlmsg_len\<close> (header and body), \<^verbatim>\<open>nlmsg_type\<close>, then the 10 bytes
  \<open>fl\<close> of flags, sequence number and port id, which the code never reads, and the body.
\<close>

definition nlmsg_bytes :: "host \<Rightarrow> 16 word \<Rightarrow> 8 word list \<Rightarrow> 8 word list \<Rightarrow> 8 word list" where
  "nlmsg_bytes h ty fl body =
     enc_native h 4 (16 + length body) @ enc_native h 2 (unat ty) @ fl @ body"

text \<open>
  The envelopes of a dump, each with its type where the code leaves it open, and with its
  flags, sequence number and port id:
  a connection with its attributes, of any type but \<^verbatim>\<open>NLMSG_DONE\<close> and
  \<^verbatim>\<open>NLMSG_ERROR\<close>; the end of the dump with any payload (the kernel sends 4 bytes); an
  error carrying the 32-bit \<^verbatim>\<open>error\<close> field in front of at least 16 more bytes (the header
  of the failed request and what follows it); and an error with a payload shorter than
  \<^verbatim>\<open>struct nlmsgerr\<close>.
\<close>

datatype envelope =
    Diag "16 word" "8 word list" conn "attr list"
  | DoneEnv "8 word list" "8 word list"
  | ErrEnv "8 word list" "32 word" "8 word list"
  | ShortErrEnv "8 word list" "8 word list"

fun envelope_bytes :: "host \<Rightarrow> envelope \<Rightarrow> 8 word list" where
  "envelope_bytes h (Diag ty fl c as) =
     nlmsg_bytes h ty fl (inet_diag_msg_bytes c @ attrs_bytes h as)"
| "envelope_bytes h (DoneEnv fl p) = nlmsg_bytes h NLMSG_DONE fl p"
| "envelope_bytes h (ErrEnv fl e p) = nlmsg_bytes h NLMSG_ERROR fl (enc_native h 4 (unat e) @ p)"
| "envelope_bytes h (ShortErrEnv fl p) = nlmsg_bytes h NLMSG_ERROR fl p"

definition datagram :: "host \<Rightarrow> envelope list \<Rightarrow> 8 word list" where
  "datagram h es = concat (map (envelope_bytes h) es)"

text \<open>
  The end of the dump without payload, and the error envelope for the field \<open>e\<close> with a
  zeroed request header; both with flags, sequence number and port id zero.
\<close>

definition EndOfDump :: envelope where
  "EndOfDump = DoneEnv (replicate 10 0) []"

definition ErrorEnv :: "32 word \<Rightarrow> envelope" where
  "ErrorEnv e = ErrEnv (replicate 10 0) e (replicate 16 0)"

subsection \<open>What a message means\<close>

text \<open>
  The sample of a connection for an \<^verbatim>\<open>INET_DIAG_INFO\<close> payload: 4 address bytes for
  \<^verbatim>\<open>AF_INET\<close> and 16 otherwise, the rest zero; the leading \<^verbatim>\<open>sizeof(struct tcp_info)\<close>
  bytes of the payload.
\<close>

definition sample_of :: "host \<Rightarrow> conn \<Rightarrow> 8 word list \<Rightarrow> sample" where
  "sample_of h c p =
     \<lparr>family = c_family c,
      saddr = (if c_family c = AF_INET then take 4 (c_src c) @ replicate 12 0 else c_src c),
      sport = c_sport c,
      daddr = (if c_family c = AF_INET then take 4 (c_dst c) @ replicate 12 0 else c_dst c),
      dport = c_dport c,
      info = take (sizeof_tcp_info h) p\<rparr>"

definition attr_samples :: "host \<Rightarrow> conn \<Rightarrow> attr list \<Rightarrow> sample list" where
  "attr_samples h c as =
     map (\<lambda>a. sample_of h c (attr_payload a)) (filter (\<lambda>a. attr_type a = INET_DIAG_INFO) as)"

text \<open>Appending a list of samples, one after the other.\<close>

fun appends :: "world \<Rightarrow> samples \<Rightarrow> sample list \<Rightarrow> samples option" where
  "appends w s [] = Some s"
| "appends w s (x # xs) = do { s' \<leftarrow> append_sample w s x; appends w s' xs }"

text \<open>
  The envelopes of one datagram, read as the design describes them: the end of the dump
  and an error stop the walk, a connection appends its samples.
\<close>

fun envelopes_result :: "host \<Rightarrow> world \<Rightarrow> envelope list \<Rightarrow> samples \<Rightarrow> walk option" where
  "envelopes_result h w [] s = Some (More s)"
| "envelopes_result h w (DoneEnv fl p # es) s = Some (Done s)"
| "envelopes_result h w (ErrEnv fl e p # es) s = Some (Failed (sint (- e)) s)"
| "envelopes_result h w (ShortErrEnv fl p # es) s = Some (Failed ENODATA s)"
| "envelopes_result h w (Diag ty fl c as # es) s =
     do { s' \<leftarrow> appends w s (attr_samples h c as); envelopes_result h w es s' }"

text \<open>
  Well-formed messages fix the sizes of the fields and nothing else: 3 bytes of state,
  addresses of 16 bytes and 32 bytes of rest in a connection; attribute lengths and types
  that fit their 16-bit fields, the padding of an attribute, and an \<^verbatim>\<open>INET_DIAG_INFO\<close>
  payload of at least \<^verbatim>\<open>sizeof(struct tcp_info)\<close> bytes; 10 bytes of flags, sequence
  number and port id; a full error with at least \<^verbatim>\<open>struct nlmsgerr\<close> and a short one with
  less.
\<close>

definition conn_ok :: "conn \<Rightarrow> bool" where
  "conn_ok c =
     (length (c_state c) = 3 \<and> length (c_src c) = 16 \<and> length (c_dst c) = 16
      \<and> length (c_rest c) = 32)"

definition attr_ok :: "host \<Rightarrow> attr \<Rightarrow> bool" where
  "attr_ok h a =
     (4 + length (attr_payload a) < 65536 \<and> attr_type a < 65536
      \<and> length (attr_pad a) = RTA_ALIGN (length (attr_payload a)) - length (attr_payload a)
      \<and> (if attr_type a = INET_DIAG_INFO then sizeof_tcp_info h \<le> length (attr_payload a) else True))"

fun envelope_ok :: "host \<Rightarrow> envelope \<Rightarrow> bool" where
  "envelope_ok h (Diag ty fl c as) =
     (ty \<noteq> NLMSG_DONE \<and> ty \<noteq> NLMSG_ERROR \<and> length fl = 10 \<and> conn_ok c \<and> list_all (attr_ok h) as)"
| "envelope_ok h (DoneEnv fl p) = (length fl = 10)"
| "envelope_ok h (ErrEnv fl e p) = (length fl = 10 \<and> 16 \<le> length p)"
| "envelope_ok h (ShortErrEnv fl p) = (length fl = 10 \<and> length p < sizeof_nlmsgerr)"

text \<open>
  The samples of an envelope and of a datagram, in order; only connections carry any.
\<close>

fun is_diag :: "envelope \<Rightarrow> bool" where
  "is_diag (Diag ty fl c as) = True"
| "is_diag e = False"

fun diag_samples :: "host \<Rightarrow> envelope \<Rightarrow> sample list" where
  "diag_samples h (Diag ty fl c as) = attr_samples h c as"
| "diag_samples h e = []"

definition dump_samples :: "host \<Rightarrow> envelope list \<Rightarrow> sample list" where
  "dump_samples h es = concat (map (diag_samples h) es)"

subsection \<open>The store\<close>



text \<open>
  The capacity after \<open>n\<close> appends as the design describes it: 16 at first, doubled by
  an append that finds the length equal to the capacity.
\<close>

fun cap_after :: "nat \<Rightarrow> nat" where
  "cap_after 0 = 16"
| "cap_after (Suc n) = (if n = cap_after n then 2 * cap_after n else cap_after n)"

text \<open>The store that holds exactly the samples \<open>xs\<close>, in a block of \<open>c\<close> slots.\<close>

definition store_of :: "sample list \<Rightarrow> nat \<Rightarrow> samples" where
  "store_of xs c =
     \<lparr>sample = Some (map Some xs @ replicate (c - length xs) None),
      len = of_nat (length xs), cap = of_nat c\<rparr>"

subsection \<open>What the loop meets in the buffer\<close>




text \<open>
  The buffer of a call before its k-th \<^verbatim>\<open>recv\<close> (each datagram overwrites the start of
  what the earlier ones left), the length the k-th \<^verbatim>\<open>recv\<close> returns, and what stops the
  walk over the k-th datagram: \<open>Some NLMSG_DONE\<close> says that the k-th datagram holds an
  end-of-dump envelope and no error envelope before it.
\<close>

fun buffer_at :: "world \<Rightarrow> int \<Rightarrow> nat \<Rightarrow> mem" where
  "buffer_at w fd 0 = stack w"
| "buffer_at w fd (Suc k) =
     (case recv w fd k of
        RecvErr \<Rightarrow> buffer_at w fd k
      | RecvData d \<Rightarrow> recv_into (buffer_at w fd k) d)"




subsection \<open>Concrete inputs\<close>

definition host_le :: host where
  "host_le = \<lparr>little_endian = True, sizeof_tcp_info = 8\<rparr>"

text \<open>A connection 10.0.0.1:40000 to 10.0.0.2:80.\<close>

definition conn1 :: conn where
  "conn1 = \<lparr>c_family = AF_INET, c_state = [1, 0, 0], c_sport = 40000, c_dport = 80,
     c_src = [10, 0, 0, 1] @ replicate 12 0, c_dst = [10, 0, 0, 2] @ replicate 12 0,
     c_rest = replicate 32 0\<rparr>"

definition info1 :: "8 word list" where
  "info1 = [1, 2, 3, 4, 5, 6, 7, 8]"

definition info2 :: "8 word list" where
  "info2 = [8, 7, 6, 5, 4, 3, 2, 1]"

text \<open>A buffer that holds zeros.\<close>

definition zero_mem :: mem where
  "zero_mem = (\<lambda>i. 0)"

text \<open>
  A world in which \<^verbatim>\<open>sendmsg\<close> returns \<open>r\<close>, the datagrams \<open>ds\<close> arrive in order and
  every later \<^verbatim>\<open>recv\<close> fails, and \<^verbatim>\<open>realloc\<close> succeeds or fails as \<open>ok\<close> says.
\<close>

definition world_of :: "int \<Rightarrow> 8 word list list \<Rightarrow> bool \<Rightarrow> world" where
  "world_of r ds ok =
     \<lparr>sendmsg = (\<lambda>fd m. r),
      recv = (\<lambda>fd k. if k < length ds then RecvData (ds ! k) else RecvErr),
      realloc_ok = (\<lambda>n. ok), stack = zero_mem\<rparr>"

text \<open>Two connections with one \<^verbatim>\<open>INET_DIAG_INFO\<close> attribute each, then the end of the dump.\<close>

definition two_infos :: "envelope list" where
  "two_infos =
     [Diag SOCK_DIAG_BY_FAMILY (replicate 10 0) conn1 [Attr INET_DIAG_INFO info1 []],
      Diag SOCK_DIAG_BY_FAMILY (replicate 10 0) conn1 [Attr INET_DIAG_INFO info2 []]]"

text \<open>
  Attribute lists: an attribute of another kind followed by an \<^verbatim>\<open>INET_DIAG_INFO\<close>
  attribute; an \<^verbatim>\<open>INET_DIAG_INFO\<close> attribute with a payload of 4 bytes, less than the
  \<^verbatim>\<open>struct tcp_info\<close> of \<open>host_le\<close>, and one with a payload of 12 bytes, more than
  it; and the 8 bytes of an attribute whose header claims 200 bytes.
\<close>

definition two_attrs :: "attr list" where
  "two_attrs = [Attr 5 info2 [], Attr INET_DIAG_INFO info1 []]"

definition short_info :: attr where
  "short_info = Attr INET_DIAG_INFO [1, 2, 3, 4] []"

definition long_info :: attr where
  "long_info = Attr INET_DIAG_INFO (info1 @ [9, 9, 9, 9]) []"


definition one_sample :: samples where
  "one_sample = \<lparr>sample = Some [Some (sample_of host_le conn1 info1)], len = 1, cap = 1\<rparr>"


definition conn2 :: conn where
  "conn2 = \<lparr>c_family = AF_INET, c_state = [1, 0, 0], c_sport = 40000, c_dport = 80,
     c_src = [10, 0, 0, 1] @ replicate 12 0, c_dst = [10, 0, 0, 2] @ replicate 12 0,
     c_rest = replicate 24 0 @ [232, 3, 0, 0, 57, 48, 0, 0]\<rparr>"





section \<open>Properties\<close>

lemmas header_defs = AF_INET_def AF_NETLINK_def IPPROTO_TCP_def INET_DIAG_INFO_def NLMSG_ERROR_def
  NLMSG_DONE_def NLM_F_REQUEST_def NLM_F_DUMP_def SOCK_DIAG_BY_FAMILY_def ENODATA_def
  sizeof_nlmsghdr_def sizeof_nlmsgerr_def sizeof_inet_diag_msg_def sizeof_inet_diag_req_v2_def
  sizeof_rtattr_def sizeof_sockaddr_nl_def TCP_ESTABLISHED_def NLMSG_ALIGN_def NLMSG_HDRLEN_def
  NLMSG_LENGTH_def RTA_ALIGN_def RTA_LENGTH_def INIT_CAP_def sizeof_b_def

declare add_2_eq_Suc [simp del] add_2_eq_Suc' [simp del]

subsection \<open>Bytes in memory\<close>

lemma length_enc_le [simp]: "length (enc_le k v) = k"
  by (induction k arbitrary: v) simp_all

lemma length_enc_native [simp]: "length (enc_native h k v) = k"
  by (simp add: enc_native_def)

lemma le_nat_enc_le: "le_nat (enc_le k v) = v mod 256 ^ k"
proof (induction k arbitrary: v)
  case 0
  show ?case by simp
next
  case (Suc k)
  have "le_nat (enc_le (Suc k) v) = v mod 256 + 256 * ((v div 256) mod 256 ^ k)"
    by (simp add: Suc unat_of_nat)
  also have "\<dots> = v mod 256 ^ Suc k"
    by (simp add: mod_mult2_eq)
  finally show ?case .
qed

lemma native_enc_native: "native h (enc_native h k v) = v mod 256 ^ k"
  by (simp add: native_def enc_native_def le_nat_enc_le)

lemma holds_Nil [simp]: "holds b off []"
  by (simp add: holds_def)

lemma holds_append: "holds b off (xs @ ys) \<longleftrightarrow> holds b off xs \<and> holds b (off + length xs) ys"
proof -
  have "[off..<off + length (xs @ ys)] = [off..<off + length xs] @ [off + length xs..<off + length xs + length ys]"
    using upt_add_eq_append [of off "off + length xs" "length ys"] by (simp add: add.assoc)
  then show ?thesis
    by (simp add: holds_def)
qed

lemma holds_rd: "holds b off bs \<Longrightarrow> off + length bs \<le> sizeof_b \<Longrightarrow> rd b off (length bs) = Some bs"
  by (simp add: holds_def rd_def)

lemma holds_rd_sub:
  assumes "holds b off bs" and "i + k \<le> length bs" and "off + i + k \<le> sizeof_b"
  shows "rd b (off + i) k = Some (take k (drop i bs))"
proof -
  have "bs = take i bs @ take k (drop i bs) @ drop k (drop i bs)"
    by (simp only: append_take_drop_id)
  with assms(1) have "holds b off (take i bs @ take k (drop i bs) @ drop k (drop i bs))"
    by simp
  with assms(2) have "holds b (off + i) (take k (drop i bs))"
    by (simp add: holds_append)
  from holds_rd [OF this] assms show ?thesis
    by simp
qed

lemma holds_recv_into:
  assumes "length d \<le> sizeof_b"
  shows "holds (recv_into b d) 0 d"
proof -
  from assms have "map (recv_into b d) [0..<length d] = map ((!) d) [0..<length d]"
    by (intro map_cong) (auto simp: recv_into_def)
  then show ?thesis
    by (simp add: holds_def map_nth)
qed

lemma word16_of_bytes:
  fixes lo hi :: "8 word"
  shows "(of_nat (unat lo + 256 * unat hi) :: 16 word) = ucast lo OR push_bit 8 (ucast hi)"
proof -
  have "(of_nat (unat lo + 256 * unat hi) :: 16 word) = ucast lo + push_bit 8 (ucast hi)"
    by (simp add: push_bit_eq_mult)
  also have "\<dots> = ucast lo OR push_bit 8 (ucast hi)"
    by (rule disjunctive_add_eq_or) (auto simp: bit_eq_iff bit_simps dest: bit_imp_le_length)
  finally show ?thesis .
qed

lemma htons_port: "htons h (of_nat (native h (enc_port p))) = p"
proof (cases "little_endian h")
  case False
  then have n: "native h (enc_port p)
      = unat (ucast p :: 8 word) + 256 * unat (ucast (drop_bit 8 p) :: 8 word)"
    by (simp add: native_def enc_port_def)
  have "(ucast (ucast p :: 8 word) :: 16 word) OR push_bit 8 (ucast (ucast (drop_bit 8 p) :: 8 word)) = p"
    by (rule bit_word_eqI) (auto simp: bit_simps dest: bit_imp_le_length)
  with False show ?thesis
    unfolding n word16_of_bytes by (simp add: htons_def)
next
  case True
  then have n: "native h (enc_port p)
      = unat (ucast (drop_bit 8 p) :: 8 word) + 256 * unat (ucast p :: 8 word)"
    by (simp add: native_def enc_port_def)
  let ?x = "(ucast (ucast (drop_bit 8 p) :: 8 word) :: 16 word) OR push_bit 8 (ucast (ucast p :: 8 word))"
  have "push_bit 8 ?x OR drop_bit 8 ?x = p"
    by (rule bit_word_eqI) (auto simp: bit_simps dest: bit_imp_le_length)
  with True show ?thesis
    unfolding n word16_of_bytes by (simp add: htons_def)
qed

lemma length_inet_diag_msg_bytes: "conn_ok c \<Longrightarrow> length (inet_diag_msg_bytes c) = 72"
  by (simp add: inet_diag_msg_bytes_def conn_ok_def enc_port_def)

lemma read_sample_conn:
  assumes b: "holds b moff (inet_diag_msg_bytes c)" and c: "conn_ok c"
    and p: "holds b (aoff + 4) p" and t: "sizeof_tcp_info h \<le> length p"
    and m: "moff + 72 \<le> sizeof_b" and a: "aoff + 4 + length p \<le> sizeof_b"
  shows "read_sample h b moff aoff = Some (sample_of h c p)"
proof -
  have len: "length (inet_diag_msg_bytes c) = 72"
    using c by (rule length_inet_diag_msg_bytes)
  from c have cl: "length (c_state c) = 3" "length (c_src c) = 16" "length (c_dst c) = 16"
    by (simp_all add: conn_ok_def)
  have lp: "length (enc_port q) = 2" for q
    by (simp add: enc_port_def)
  from b [unfolded inet_diag_msg_bytes_def holds_append]
  have parts: "holds b moff [c_family c]" "holds b (moff + 4) (enc_port (c_sport c))"
    "holds b (moff + 6) (enc_port (c_dport c))" "holds b (moff + 8) (c_src c)"
    "holds b (moff + 24) (c_dst c)"
    by (simp_all add: cl lp add_ac)
  have fam: "rd_u8 b moff = Some (c_family c)"
    using holds_rd [OF parts(1)] m by (simp add: rd_u8_def)
  have sp: "rd_u16 h b (moff + 4) = Some (of_nat (native h (enc_port (c_sport c))))"
    using holds_rd [OF parts(2)] m by (simp add: rd_u16_def lp)
  have dp: "rd_u16 h b (moff + 6) = Some (of_nat (native h (enc_port (c_dport c))))"
    using holds_rd [OF parts(3)] m by (simp add: rd_u16_def lp)
  have src: "rd b (moff + 8) k = Some (take k (c_src c))" if "k \<le> 16" for k
    using holds_rd_sub [OF parts(4), of 0 k] m that by (simp add: cl)
  have dst: "rd b (moff + 24) k = Some (take k (c_dst c))" if "k \<le> 16" for k
    using holds_rd_sub [OF parts(5), of 0 k] m that by (simp add: cl)
  have tt: "rd b (aoff + RTA_LENGTH 0) (sizeof_tcp_info h) = Some (take (sizeof_tcp_info h) p)"
    using holds_rd_sub [OF p, of 0 "sizeof_tcp_info h"] t a by (simp add: header_defs)
  show ?thesis
    using c by (simp add: read_sample_def fam sp dp tt src dst htons_port sample_of_def memcpy_def conn_ok_def)
qed


lemma RTA_ALIGN_4: "RTA_ALIGN (4 + n) = 4 + RTA_ALIGN n"
  unfolding RTA_ALIGN_def by presburger

lemma rd_u16_enc:
  "holds b off (enc_native h 2 v) \<Longrightarrow> off + 2 \<le> sizeof_b \<Longrightarrow> rd_u16 h b off = Some (of_nat v)"
  using holds_rd [of b off "enc_native h 2 v"]
  by (simp add: rd_u16_def native_enc_native word_of_nat_eq_iff take_bit_eq_mod)

lemma rd_u32_enc:
  "holds b off (enc_native h 4 v) \<Longrightarrow> off + 4 \<le> sizeof_b \<Longrightarrow> rd_u32 h b off = Some (of_nat v)"
  using holds_rd [of b off "enc_native h 4 v"]
  by (simp add: rd_u32_def native_enc_native word_of_nat_eq_iff take_bit_eq_mod)


lemma RTA_ALIGN_ge: "n \<le> RTA_ALIGN n"
  unfolding RTA_ALIGN_def by presburger

lemma length_rtattr_bytes_raw:
  "length (rtattr_bytes h a) = 4 + length (attr_payload a) + length (attr_pad a)"
  by (simp add: rtattr_bytes_def)

lemma length_rtattr_bytes:
  "attr_ok h a \<Longrightarrow> length (rtattr_bytes h a) = 4 + RTA_ALIGN (length (attr_payload a))"
  using RTA_ALIGN_ge [of "length (attr_payload a)"] by (simp add: rtattr_bytes_def attr_ok_def)

lemma unat_of_nat16: "n < 65536 \<Longrightarrow> unat (of_nat n :: 16 word) = n"
  by (simp add: unat_of_nat)

lemma RTA_OK_I:
  assumes "rd_u16 h b aoff = Some l" and "4 \<le> unat l" and "int (unat l) \<le> rtalen"
  shows "RTA_OK h b aoff rtalen = Some True"
proof -
  from assms have "4 \<le> rtalen"
    by linarith
  with assms show ?thesis
    by (simp add: RTA_OK_def sizeof_rtattr_def)
qed

lemma RTA_NEXT_I:
  "rd_u16 h b aoff = Some l
    \<Longrightarrow> RTA_NEXT h b aoff rtalen = Some (aoff + RTA_ALIGN (unat l), rtalen - int (RTA_ALIGN (unat l)))"
  by (simp add: RTA_NEXT_def)

lemma rtattr_header:
  assumes b: "holds b aoff (rtattr_bytes h a)"
    and ok: "4 + length (attr_payload a) < 65536" "attr_type a < 65536"
    and fit: "aoff + length (rtattr_bytes h a) \<le> sizeof_b"
  obtains l t where "rd_u16 h b aoff = Some l" and "unat l = 4 + length (attr_payload a)"
    and "rd_u16 h b (aoff + 2) = Some t" and "unat t = attr_type a"
    and "holds b (aoff + 4) (attr_payload a)"
proof -
  from b have 1: "holds b aoff (enc_native h 2 (4 + length (attr_payload a)))"
    and 2: "holds b (aoff + 2) (enc_native h 2 (attr_type a))"
    and 3: "holds b (aoff + 4) (attr_payload a)"
    by (simp_all add: rtattr_bytes_def holds_append add.assoc)
  from fit have f: "aoff + 2 \<le> sizeof_b" "aoff + 2 + 2 \<le> sizeof_b"
    by (simp_all add: length_rtattr_bytes_raw)
  from ok have "unat (of_nat (4 + length (attr_payload a)) :: 16 word) = 4 + length (attr_payload a)"
    and "unat (of_nat (attr_type a) :: 16 word) = attr_type a"
    by (simp_all only: unat_of_nat16)
  with rd_u16_enc [OF 1 f(1)] rd_u16_enc [OF 2 f(2)] 3 that show thesis
    by blast
qed

lemma rta_walk_attr:
  assumes m: "holds b moff (inet_diag_msg_bytes c)" "conn_ok c" "moff + 72 \<le> sizeof_b"
    and b: "holds b aoff (rtattr_bytes h a)" and ok: "attr_ok h a"
    and fit: "aoff + length (rtattr_bytes h a) \<le> sizeof_b"
    and r: "int (4 + length (attr_payload a)) \<le> rtalen"
  shows "rta_walk h w b moff aoff rtalen s =
     do { s' \<leftarrow> appends w s (attr_samples h c [a]);
          rta_walk h w b moff (aoff + length (rtattr_bytes h a))
            (rtalen - int (length (rtattr_bytes h a))) s' }"
proof -
  from ok have "4 + length (attr_payload a) < 65536" "attr_type a < 65536"
    by (simp_all add: attr_ok_def)
  from rtattr_header [OF b this fit] obtain l t
    where l: "rd_u16 h b aoff = Some l" "unat l = 4 + length (attr_payload a)"
      and t: "rd_u16 h b (aoff + 2) = Some t" "unat t = attr_type a"
      and p: "holds b (aoff + 4) (attr_payload a)"
    by blast
  from r have "4 \<le> unat l" "int (unat l) \<le> rtalen"
    unfolding l(2) by simp_all
  with l(1) have okk: "RTA_OK h b aoff rtalen = Some True"
    by (rule RTA_OK_I)
  have nx: "RTA_NEXT h b aoff rtalen
      = Some (aoff + length (rtattr_bytes h a), rtalen - int (length (rtattr_bytes h a)))"
    using RTA_NEXT_I [OF l(1), of rtalen] by (simp only: l(2) length_rtattr_bytes [OF ok] RTA_ALIGN_4)
  have rs: "read_sample h b moff aoff = Some (sample_of h c (attr_payload a))"
    if "attr_type a = INET_DIAG_INFO"
  proof (rule read_sample_conn [OF m(1,2) p _ m(3)])
    from ok that show "sizeof_tcp_info h \<le> length (attr_payload a)"
      by (simp add: attr_ok_def)
    from fit show "aoff + 4 + length (attr_payload a) \<le> sizeof_b"
      by (simp add: length_rtattr_bytes_raw)
  qed
  show ?thesis
    by (subst rta_walk.simps) (simp add: okk t nx rs attr_samples_def)
qed

lemma rta_walk_end: "rtalen < 4 \<Longrightarrow> rta_walk h w b moff aoff rtalen s = Some s"
  by (subst rta_walk.simps) (simp add: RTA_OK_def sizeof_rtattr_def)

lemma appends_append:
  "appends w s (xs @ ys) = do { s' \<leftarrow> appends w s xs; appends w s' ys }"
  by (induction xs arbitrary: s) (simp_all split: bind_split)

lemma attr_samples_Cons: "attr_samples h c (a # as) = attr_samples h c [a] @ attr_samples h c as"
  by (simp add: attr_samples_def)

lemma rta_walk_attrs:
  assumes m: "holds b moff (inet_diag_msg_bytes c)" "conn_ok c" "moff + 72 \<le> sizeof_b"
  shows "list_all (attr_ok h) as \<Longrightarrow> holds b aoff (attrs_bytes h as)
    \<Longrightarrow> aoff + length (attrs_bytes h as) \<le> sizeof_b
    \<Longrightarrow> int (length (attrs_bytes h as)) \<le> rtalen
    \<Longrightarrow> rta_walk h w b moff aoff rtalen s =
         do { s' \<leftarrow> appends w s (attr_samples h c as);
              rta_walk h w b moff (aoff + length (attrs_bytes h as))
                (rtalen - int (length (attrs_bytes h as))) s' }"
proof (induction as arbitrary: aoff rtalen s)
  case Nil
  then show ?case
    by (simp add: attrs_bytes_def attr_samples_def)
next
  case (Cons a as)
  let ?A = "rtattr_bytes h a"
  have bytes: "attrs_bytes h (a # as) = ?A @ attrs_bytes h as"
    by (simp add: attrs_bytes_def)
  from Cons.prems have ok: "attr_ok h a" "list_all (attr_ok h) as"
    by simp_all
  from Cons.prems(2) have h1: "holds b aoff ?A" and h2: "holds b (aoff + length ?A) (attrs_bytes h as)"
    by (simp_all add: bytes holds_append)
  from Cons.prems(3) have f1: "aoff + length ?A \<le> sizeof_b"
    and f2: "aoff + length ?A + length (attrs_bytes h as) \<le> sizeof_b"
    by (simp_all add: bytes)
  from Cons.prems(4)
  have r1: "int (4 + length (attr_payload a)) \<le> rtalen"
    and r2: "int (length (attrs_bytes h as)) \<le> rtalen - int (length ?A)"
    by (simp_all add: bytes length_rtattr_bytes_raw)
  have step: "rta_walk h w b moff aoff rtalen s =
      do { s' \<leftarrow> appends w s (attr_samples h c [a]);
           rta_walk h w b moff (aoff + length ?A) (rtalen - int (length ?A)) s' }"
    by (rule rta_walk_attr [OF m h1 ok(1) f1 r1])
  have rest: "rta_walk h w b moff (aoff + length ?A) (rtalen - int (length ?A)) s' =
      do { s'' \<leftarrow> appends w s' (attr_samples h c as);
           rta_walk h w b moff (aoff + length (attrs_bytes h (a # as)))
             (rtalen - int (length (attrs_bytes h (a # as)))) s'' }" for s'
  proof -
    have "aoff + length ?A + length (attrs_bytes h as) = aoff + length (attrs_bytes h (a # as))"
      and "rtalen - int (length ?A) - int (length (attrs_bytes h as))
        = rtalen - int (length (attrs_bytes h (a # as)))"
      by (simp_all add: bytes)
    with Cons.IH [OF ok(2) h2 f2 r2, of s'] show ?thesis
      by (simp only:)
  qed
  show ?case
    unfolding step rest attr_samples_Cons [of h c a as] appends_append
    by (simp split: bind_split)
qed


lemma sint_sub_small:
  fixes l :: "32 word"
  assumes "unat l < 2 ^ 31" and "k < 2 ^ 31"
  shows "sint (l - of_nat k) = int (unat l) - int k"
proof -
  define x where "x = int (unat l) - int k"
  from assms have "- (2 ^ 31) \<le> x" and "x < 2 ^ 31"
    by (simp_all add: x_def del: of_nat_unat)
  then have "signed_take_bit 31 x = x"
    by (rule signed_take_bit_int_eq_self)
  then have "sint (word_of_int x :: 32 word) = x"
    by (simp add: signed_of_int)
  moreover have "l - of_nat k = word_of_int x"
    by (simp add: x_def)
  ultimately show ?thesis
    by (simp only: x_def)
qed

lemma NLMSG_ALIGN_ge: "n \<le> NLMSG_ALIGN n"
  unfolding NLMSG_ALIGN_def by presburger

lemma NLMSG_ALIGN_16: "NLMSG_ALIGN (16 + n) = 16 + NLMSG_ALIGN n"
  unfolding NLMSG_ALIGN_def by presburger

lemma NLMSG_ALIGN_dvd: "4 dvd n \<Longrightarrow> NLMSG_ALIGN n = n"
  unfolding NLMSG_ALIGN_def by presburger

lemma length_nlmsg_bytes:
  "length fl = 10 \<Longrightarrow> length (nlmsg_bytes h ty fl body) = 16 + length body"
  by (simp add: nlmsg_bytes_def)

lemma dvd_length_rtattr_bytes: "attr_ok h a \<Longrightarrow> 4 dvd length (rtattr_bytes h a)"
  by (simp add: length_rtattr_bytes RTA_ALIGN_def)

lemma dvd_length_attrs_bytes: "list_all (attr_ok h) as \<Longrightarrow> 4 dvd length (attrs_bytes h as)"
  by (induction as) (simp_all add: attrs_bytes_def dvd_length_rtattr_bytes)

lemma NLMSG_OK_I:
  assumes "rd_u32 h b hoff = Some l" and "16 \<le> unat l" and "int (unat l) \<le> n"
  shows "NLMSG_OK h b hoff n = Some True"
proof -
  from assms have "16 \<le> n"
    by linarith
  with assms show ?thesis
    by (simp add: NLMSG_OK_def sizeof_nlmsghdr_def)
qed

lemma NLMSG_NEXT_I:
  "rd_u32 h b hoff = Some l
    \<Longrightarrow> NLMSG_NEXT h b hoff n = Some (hoff + NLMSG_ALIGN (unat l), n - int (NLMSG_ALIGN (unat l)))"
  by (simp add: NLMSG_NEXT_def)

lemma unat_of_nat32: "n < 2 ^ 32 \<Longrightarrow> unat (of_nat n :: 32 word) = n"
  by (simp add: unat_of_nat)

lemma nlmsg_header:
  assumes b: "holds b hoff (nlmsg_bytes h ty fl body)" and fl: "length fl = 10"
    and fit: "hoff + length (nlmsg_bytes h ty fl body) \<le> sizeof_b"
  obtains l where "rd_u32 h b hoff = Some l" and "unat l = 16 + length body"
    and "rd_u16 h b (hoff + 4) = Some ty" and "holds b (hoff + 16) body"
proof -
  from b fl have 1: "holds b hoff (enc_native h 4 (16 + length body))"
    and 2: "holds b (hoff + 4) (enc_native h 2 (unat ty))"
    and 3: "holds b (hoff + 16) body"
    by (simp_all add: nlmsg_bytes_def holds_append add.assoc)
  from fit fl have f: "hoff + 4 \<le> sizeof_b" "hoff + 4 + 2 \<le> sizeof_b"
    by (simp_all add: length_nlmsg_bytes)
  from fit fl have "16 + length body < 2 ^ 32"
    by (simp add: length_nlmsg_bytes sizeof_b_def)
  then have "unat (of_nat (16 + length body) :: 32 word) = 16 + length body"
    by (simp only: unat_of_nat32)
  moreover have "rd_u16 h b (hoff + 4) = Some ty"
    using rd_u16_enc [OF 2 f(2)] by simp
  ultimately show thesis
    using rd_u32_enc [OF 1 f(1)] 3 that by blast
qed

lemma nlmsg_walk_end: "n < 16 \<Longrightarrow> nlmsg_walk h w b hoff n s = Some (More s)"
  by (subst nlmsg_walk.simps) (simp add: NLMSG_OK_def sizeof_nlmsghdr_def)

lemma length_inet_diag_msg_attrs:
  "conn_ok c \<Longrightarrow> list_all (attr_ok h) as
    \<Longrightarrow> NLMSG_ALIGN (length (inet_diag_msg_bytes c @ attrs_bytes h as))
        = 72 + length (attrs_bytes h as)"
  using dvd_length_attrs_bytes [of h as]
  by (simp add: length_inet_diag_msg_bytes NLMSG_ALIGN_dvd)

lemma nlmsg_walk_envelope:
  assumes ok: "envelope_ok h e" and b: "holds b hoff (envelope_bytes h e)"
    and fit: "hoff + length (envelope_bytes h e) \<le> sizeof_b"
    and n: "int (length (envelope_bytes h e)) \<le> n"
  shows "nlmsg_walk h w b hoff n s =
     (case e of
        Diag ty fl c as \<Rightarrow>
          do { s' \<leftarrow> appends w s (attr_samples h c as);
               nlmsg_walk h w b (hoff + length (envelope_bytes h e))
                 (n - int (length (envelope_bytes h e))) s' }
      | DoneEnv fl p \<Rightarrow> Some (Done s)
      | ErrEnv fl x p \<Rightarrow> Some (Failed (sint (- x)) s)
      | ShortErrEnv fl p \<Rightarrow> Some (Failed ENODATA s))"
proof (cases e)
  case (DoneEnv fl p)
  with ok have fl: "length fl = 10"
    by simp
  from DoneEnv b fit obtain l where l: "rd_u32 h b hoff = Some l" "unat l = 16 + length p"
    and t: "rd_u16 h b (hoff + 4) = Some NLMSG_DONE"
    by (auto elim: nlmsg_header [of b hoff h NLMSG_DONE fl p, OF _ fl])
  from n DoneEnv fl have "16 \<le> unat l" "int (unat l) \<le> n"
    unfolding l(2) by (simp_all add: length_nlmsg_bytes)
  with l(1) have "NLMSG_OK h b hoff n = Some True"
    by (rule NLMSG_OK_I)
  with t DoneEnv show ?thesis
    by (subst nlmsg_walk.simps) simp
next
  case (ShortErrEnv fl p)
  with ok have fl: "length fl = 10"
    by simp
  from ShortErrEnv b fit obtain l where l: "rd_u32 h b hoff = Some l" "unat l = 16 + length p"
    and t: "rd_u16 h b (hoff + 4) = Some NLMSG_ERROR"
    by (auto elim: nlmsg_header [of b hoff h NLMSG_ERROR fl p, OF _ fl])
  from n ShortErrEnv fl have "16 \<le> unat l" "int (unat l) \<le> n"
    unfolding l(2) by (simp_all add: length_nlmsg_bytes)
  with l(1) have "NLMSG_OK h b hoff n = Some True"
    by (rule NLMSG_OK_I)
  moreover from ok ShortErrEnv have "unat l < NLMSG_LENGTH sizeof_nlmsgerr"
    unfolding l(2) by (simp add: header_defs)
  ultimately show ?thesis
    using t l(1) ShortErrEnv
    by (subst nlmsg_walk.simps) (simp add: NLMSG_DONE_def NLMSG_ERROR_def)
next
  case (ErrEnv fl x p)
  with ok have fl: "length fl = 10" and p: "16 \<le> length p"
    by simp_all
  let ?body = "enc_native h 4 (unat x) @ p"
  from ErrEnv b fit obtain l where l: "rd_u32 h b hoff = Some l" "unat l = 16 + length ?body"
    and t: "rd_u16 h b (hoff + 4) = Some NLMSG_ERROR" and bd: "holds b (hoff + 16) ?body"
    by (auto elim: nlmsg_header [of b hoff h NLMSG_ERROR fl ?body, OF _ fl])
  have len: "length (envelope_bytes h e) = 20 + length p"
    using ErrEnv fl by (simp add: length_nlmsg_bytes)
  from n have "16 \<le> unat l" "int (unat l) \<le> n"
    unfolding l(2) len by simp_all
  with l(1) have okk: "NLMSG_OK h b hoff n = Some True"
    by (rule NLMSG_OK_I)
  from p have nshort: "\<not> unat l < NLMSG_LENGTH sizeof_nlmsgerr"
    unfolding l(2) by (simp add: header_defs)
  from bd have "holds b (hoff + 16) (enc_native h 4 (unat x))"
    by (simp add: holds_append)
  moreover from fit have "hoff + 16 + 4 \<le> sizeof_b"
    by (simp add: len)
  ultimately have e: "rd_u32 h b (hoff + NLMSG_HDRLEN) = Some x"
    using rd_u32_enc [of b "hoff + 16" h "unat x"] by (simp add: header_defs)
  show ?thesis
    using t l(1) ErrEnv okk nshort e
    by (subst nlmsg_walk.simps) (simp add: NLMSG_DONE_def NLMSG_ERROR_def)
next
  case (Diag ty fl c as)
  let ?A = "attrs_bytes h as"
  let ?body = "inet_diag_msg_bytes c @ ?A"
  from Diag ok have c: "conn_ok c" and as: "list_all (attr_ok h) as" and fl: "length fl = 10"
    and ty: "ty \<noteq> NLMSG_DONE" "ty \<noteq> NLMSG_ERROR"
    by simp_all
  have blen: "length ?body = 72 + length ?A"
    using c by (simp add: length_inet_diag_msg_bytes)
  have len: "length (envelope_bytes h e) = 88 + length ?A"
    using Diag fl blen by (simp add: length_nlmsg_bytes)
  from Diag b fit obtain l where l: "rd_u32 h b hoff = Some l" "unat l = 16 + length ?body"
    and t: "rd_u16 h b (hoff + 4) = Some ty" and bd: "holds b (hoff + 16) ?body"
    by (auto elim: nlmsg_header [of b hoff h ty fl ?body, OF _ fl])
  from l(2) have ul: "unat l = 88 + length ?A"
    unfolding blen by simp
  from n have "16 \<le> unat l" "int (unat l) \<le> n"
    unfolding ul len by simp_all
  with l(1) have okk: "NLMSG_OK h b hoff n = Some True"
    by (rule NLMSG_OK_I)
  from fit have small: "unat l < 2 ^ 31"
    unfolding ul by (simp add: len sizeof_b_def)
  have rl: "sint (l - of_nat (NLMSG_LENGTH sizeof_inet_diag_msg)) = int (length ?A)"
    using sint_sub_small [OF small, of 88] by (simp add: header_defs ul)
  have nx: "NLMSG_NEXT h b hoff n
      = Some (hoff + length (envelope_bytes h e), n - int (length (envelope_bytes h e)))"
    using NLMSG_NEXT_I [OF l(1), of n] length_inet_diag_msg_attrs [OF c as]
    by (simp add: l(2) len NLMSG_ALIGN_16)
  from bd c have m: "holds b (hoff + 16) (inet_diag_msg_bytes c)"
    and a: "holds b (hoff + 16 + 72) ?A"
    by (simp_all add: holds_append length_inet_diag_msg_bytes)
  from fit have f: "hoff + 16 + 72 \<le> sizeof_b" "hoff + 16 + 72 + length ?A \<le> sizeof_b"
    by (simp_all add: len)
  have "rta_walk h w b (hoff + 16) (hoff + 16 + 72) (int (length ?A)) s
      = do { s' \<leftarrow> appends w s (attr_samples h c as);
             rta_walk h w b (hoff + 16) (hoff + 16 + 72 + length ?A)
               (int (length ?A) - int (length ?A)) s' }"
    by (rule rta_walk_attrs [OF m c f(1) as a f(2)]) simp
  then have pr: "parse_response h w b (hoff + NLMSG_HDRLEN) (int (length ?A)) s
      = appends w s (attr_samples h c as)"
    by (simp add: parse_response_def header_defs rta_walk_end)
  have nosample: "appends w s (attr_samples h c as) = Some s" if "length ?A = 0"
  proof -
    from that have "as = []"
      by (cases as) (simp_all add: attrs_bytes_def length_rtattr_bytes_raw)
    then show ?thesis
      by (simp add: attr_samples_def)
  qed
  show ?thesis
    using t ty l(1) Diag okk nx pr nosample
    by (subst nlmsg_walk.simps) (simp add: rl)
qed

lemma nlmsg_walk_datagram:
  "list_all (envelope_ok h) es \<Longrightarrow> holds b hoff (datagram h es @ tail)
    \<Longrightarrow> hoff + length (datagram h es @ tail) \<le> sizeof_b
    \<Longrightarrow> nlmsg_walk h w b hoff (int (length (datagram h es @ tail))) s =
        (case envelopes_result h w es s of
           Some (More s') \<Rightarrow>
             nlmsg_walk h w b (hoff + length (datagram h es)) (int (length tail)) s'
         | r \<Rightarrow> r)"
proof (induction es arbitrary: hoff s)
  case Nil
  then show ?case
    by (simp add: datagram_def)
next
  case (Cons e es)
  let ?E = "envelope_bytes h e"
  let ?R = "datagram h es @ tail"
  have bytes: "datagram h (e # es) = ?E @ datagram h es"
    by (simp add: datagram_def)
  from Cons.prems have ok: "envelope_ok h e" "list_all (envelope_ok h) es"
    by simp_all
  from Cons.prems(2) have h1: "holds b hoff ?E" and h2: "holds b (hoff + length ?E) ?R"
    by (simp_all add: bytes holds_append)
  from Cons.prems(3) have f1: "hoff + length ?E \<le> sizeof_b"
    and f2: "hoff + length ?E + length ?R \<le> sizeof_b"
    by (simp_all add: bytes)
  have n: "int (length ?E) \<le> int (length (datagram h (e # es) @ tail))"
    by (simp add: bytes)
  have off: "hoff + length (datagram h (e # es)) = hoff + length ?E + length (datagram h es)"
    and nn: "int (length (datagram h (e # es) @ tail)) - int (length ?E) = int (length ?R)"
    by (simp_all add: bytes)
  have rest: "nlmsg_walk h w b (hoff + length ?E)
      (int (length (datagram h (e # es) @ tail)) - int (length ?E)) s' =
        (case envelopes_result h w es s' of
           Some (More s'') \<Rightarrow>
             nlmsg_walk h w b (hoff + length (datagram h (e # es))) (int (length tail)) s''
         | r \<Rightarrow> r)" for s'
    unfolding nn off by (rule Cons.IH [OF ok(2) h2 f2])
  show ?case
    unfolding nlmsg_walk_envelope [OF ok(1) h1 f1 n] rest
    by (cases e) (simp_all split: bind_split)
qed

lemma nlmsg_walk_recv_tail:
  assumes "list_all (envelope_ok h) es" and "length (datagram h es @ tail) \<le> sizeof_b"
  shows "nlmsg_walk h w (recv_into b (datagram h es @ tail)) 0
      (int (min (length (datagram h es @ tail)) sizeof_b)) s =
        (case envelopes_result h w es s of
           Some (More s') \<Rightarrow>
             nlmsg_walk h w (recv_into b (datagram h es @ tail)) (length (datagram h es))
               (int (length tail)) s'
         | r \<Rightarrow> r)"
proof -
  from assms(2) have fit: "0 + length (datagram h es @ tail) \<le> sizeof_b"
    by simp
  from assms(2) have m: "min (length (datagram h es @ tail)) sizeof_b = length (datagram h es @ tail)"
    by simp
  from nlmsg_walk_datagram [OF assms(1) holds_recv_into [OF assms(2), of b] fit,
      where w = w and s = s]
  show ?thesis
    unfolding m add_0 .
qed

lemma nlmsg_walk_recv:
  assumes "list_all (envelope_ok h) es" and "length (datagram h es) \<le> sizeof_b"
  shows "nlmsg_walk h w (recv_into b (datagram h es)) 0
      (int (min (length (datagram h es)) sizeof_b)) s = envelopes_result h w es s"
proof -
  from assms(2) have "length (datagram h es @ []) \<le> sizeof_b"
    by simp
  from nlmsg_walk_recv_tail [OF assms(1) this, of w b s] show ?thesis
    by (simp add: nlmsg_walk_end split: option.split walk.split)
qed

lemma drain_recv_err:
  "recv w fd k = RecvErr \<Longrightarrow> drain h w fd b k s = Some (Return (- 1) None s (Suc k))"
  by (subst drain.simps) simp

lemma drain_datagram:
  assumes "recv w fd k = RecvData (datagram h es)"
    and "list_all (envelope_ok h) es" and "length (datagram h es) \<le> sizeof_b"
  shows "drain h w fd b k s =
     (case envelopes_result h w es s of
        None \<Rightarrow> Some Fault
      | Some (Done s') \<Rightarrow> Some (Return 0 None s' (Suc k))
      | Some (Failed e s') \<Rightarrow> Some (Return (- 1) (Some e) s' (Suc k))
      | Some (More s') \<Rightarrow> drain h w fd (recv_into b (datagram h es)) (Suc k) s')"
  by (subst drain.simps) (simp add: assms(1) nlmsg_walk_recv [OF assms(2,3)])







subsection \<open>The store invariant\<close>





subsection \<open>Appending to the store\<close>

lemma cap_after_ge16: "16 \<le> cap_after n"
  by (induction n) simp_all

lemma cap_after_ge: "n \<le> cap_after n"
proof (induction n)
  case 0
  show ?case by simp
next
  case (Suc n)
  with cap_after_ge16 [of n] show ?case
    by (cases "n = cap_after n") simp_all
qed

lemma cap_after_half: "cap_after n = 16 \<or> cap_after n < 2 * n"
  by (induction n) auto

lemma cap_after_pow: "\<exists>k. cap_after n = 2 ^ k"
proof (induction n)
  case 0
  have "(16::nat) = 2 ^ 4" by simp
  then show ?case by (metis cap_after.simps(1))
next
  case (Suc n)
  then obtain k where k: "cap_after n = 2 ^ k" by blast
  show ?case
  proof (cases "n = cap_after n")
    case True
    then have "cap_after (Suc n) = 2 * cap_after n" by simp
    also have "\<dots> = 2 ^ Suc k" using k by simp
    finally show ?thesis by blast
  next
    case False
    then have "cap_after (Suc n) = 2 ^ k" using k by simp
    then show ?thesis by blast
  qed
qed

lemma cap_after_small: "n \<le> 16 \<Longrightarrow> cap_after n = 16"
  by (induction n) auto

lemma cap_after_2_31: "cap_after (2 ^ 31) = 2 ^ 31"
proof -
  obtain k where k: "cap_after (2 ^ 31) = 2 ^ k"
    using cap_after_pow by blast
  from cap_after_ge [of "2 ^ 31"] k have "(2::nat) ^ 31 \<le> 2 ^ k"
    by simp
  then have "31 \<le> k"
    by (simp only: power_increasing_iff) 
  from cap_after_half [of "2 ^ 31"] k have "(2::nat) ^ k < 2 ^ 32"
    by auto
  then have "k < 32"
    by (simp only: power_strict_increasing_iff)
  with \<open>31 \<le> k\<close> have "k = 31" by simp
  with k show ?thesis by simp
qed

lemma store_of_init: "realloc_ok w 16 \<Longrightarrow> grow w empty_samples = store_of [] 16"
  by (simp add: grow_def empty_samples_def store_of_def realloc_def INIT_CAP_def)

lemma append_store_of:
  assumes le: "length xs \<le> c" and c16: "16 \<le> c" and c: "c < 2 ^ 32"
    and c2: "length xs = c \<Longrightarrow> c < 2 ^ 31"
    and ok: "length xs = c \<Longrightarrow> realloc_ok w (of_nat (2 * c))"
  shows "append_sample w (store_of xs c) x
    = Some (store_of (xs @ [x]) (if length xs = c then 2 * c else c))"
proof -
  let ?n = "length xs"
  from le c have "?n < 2 ^ 32" "c < 2 ^ 32"
    by simp_all
  then have un: "unat (of_nat ?n :: 32 word) = ?n" and uc: "unat (of_nat c :: 32 word) = c"
    by (simp_all only: unat_of_nat32)
  have ge: "(of_nat ?n :: 32 word) \<ge> of_nat c \<longleftrightarrow> ?n = c"
    using le by (simp only: word_le_nat_alt un uc) auto
  have upd: "(map Some xs @ replicate (k - ?n) None)[?n := Some x]
      = map Some (xs @ [x]) @ replicate (k - length (xs @ [x])) None" if "?n < k" for k
  proof -
    from that obtain m where m: "k - ?n = Suc m"
      by (cases "k - ?n") simp_all
    then have "k - length (xs @ [x]) = m"
      by simp
    with m show ?thesis
      by (simp add: list_update_append)
  qed
  show ?thesis
  proof (cases "?n = c")
    case False
    with le have lt: "?n < c" by simp
    with False ge show ?thesis
      by (simp add: append_sample_def put_sample_def store_of_def un upd [OF lt] del: of_nat_Suc of_nat_add)
        (simp add: add.commute)
  next
    case True
    from c16 c have nz: "(of_nat c :: 32 word) \<noteq> 0"
      using uc by force
    from c2 [OF True] have "2 * c < 2 ^ 32"
      by simp
    then have u2: "unat (of_nat (2 * c) :: 32 word) = 2 * c"
      by (simp only: unat_of_nat32)
    note ok = ok [OF True]
    define C2 :: "32 word" where "C2 = of_nat (2 * c)"
    have two: "(of_nat c :: 32 word) * 2 = C2"
      by (simp add: C2_def)
    have u2': "unat C2 = 2 * c" and ok': "realloc_ok w C2"
      using u2 ok by (simp_all only: C2_def)
    let ?g = "\<lparr>sample = Some (map Some xs @ replicate (2 * c - ?n) None),
           len = of_nat ?n, cap = C2\<rparr>"
    have "realloc w (Some (map Some xs @ replicate (c - ?n) None)) C2
        = Some (map Some xs @ replicate (2 * c - ?n) None)"
      using ok' True by (simp add: realloc_def u2')
    with nz have g: "grow w (store_of xs c) = ?g"
      by (simp add: grow_def Let_def store_of_def two)
    from True c16 have lt: "?n < 2 * c" by simp
    from ge True have cond: "len (store_of xs c) \<ge> cap (store_of xs c)"
      by (simp add: store_of_def)
    have put: "put_sample ?g x
        = Some (?g\<lparr>sample := Some (map Some (xs @ [x]) @ replicate (2 * c - length (xs @ [x])) None)\<rparr>)"
      using lt by (simp add: put_sample_def un upd [OF lt])
    have "append_sample w (store_of xs c) x = do { s' \<leftarrow> put_sample ?g x; Some (s'\<lparr>len := len s' + 1\<rparr>) }"
      using cond by (simp only: append_sample_def if_True g)
    also have "\<dots> = Some (store_of (xs @ [x]) (2 * c))"
      unfolding put by (simp add: store_of_def add.commute C2_def)
    finally show ?thesis
      using True by simp
  qed
qed


lemma appends_init:
  assumes ok: "\<And>c. realloc_ok w c"
  shows "length xs \<le> 2 ^ 31
    \<Longrightarrow> appends w (grow w empty_samples) xs = Some (store_of xs (cap_after (length xs)))"
proof (induction xs rule: rev_induct)
  case Nil
  show ?case
    using ok by (simp add: store_of_init)
next
  case (snoc x xs)
  let ?n = "length xs" and ?c = "cap_after (length xs)"
  from snoc.prems have n: "?n < 2 ^ 31"
    by simp
  with snoc.IH have ih: "appends w (grow w empty_samples) xs = Some (store_of xs ?c)"
    by simp
  from cap_after_half [of ?n] n have c: "?c < 2 ^ 32"
    by auto
  have "append_sample w (store_of xs ?c) x
      = Some (store_of (xs @ [x]) (if ?n = ?c then 2 * ?c else ?c))"
    using cap_after_ge cap_after_ge16 c
  proof (rule append_store_of)
    assume "?n = ?c"
    with n show "?c < 2 ^ 31" by simp
  next
    show "realloc_ok w (of_nat (2 * ?c))" by (rule ok)
  qed
  then show ?case
    by (simp add: appends_append ih)
qed

lemma append_overflow:
  assumes "length xs = 2 ^ 31"
  shows "append_sample w (store_of xs (2 ^ 31)) x = None"
proof -
  have g: "cap (grow w (store_of xs (2 ^ 31))) = 0"
    by (simp add: grow_def Let_def store_of_def)
  have "sample (grow w (store_of xs (2 ^ 31))) = None
      \<or> sample (grow w (store_of xs (2 ^ 31))) = Some []"
    by (simp add: grow_def Let_def store_of_def realloc_def)
  then have "put_sample (grow w (store_of xs (2 ^ 31))) x = None"
    by (auto simp: put_sample_def)
  then show ?thesis
    using assms by (simp add: append_sample_def store_of_def)
qed


subsection \<open>Lengths of wire images, and the concrete worlds\<close>

lemma length_datagram_Nil: "length (datagram h []) = 0"
  by (simp add: datagram_def)

lemma length_datagram_Cons:
  "length (datagram h (e # es)) = length (envelope_bytes h e) + length (datagram h es)"
  by (simp add: datagram_def)

lemma length_attrs_bytes_Nil: "length (attrs_bytes h []) = 0"
  by (simp add: attrs_bytes_def)

lemma length_attrs_bytes_Cons:
  "length (attrs_bytes h (a # as))
    = 4 + length (attr_payload a) + length (attr_pad a) + length (attrs_bytes h as)"
  by (simp add: attrs_bytes_def length_rtattr_bytes_raw)

lemma length_envelope_bytes:
  "conn_ok c \<Longrightarrow> length fl = 10
    \<Longrightarrow> length (envelope_bytes h (Diag ty fl c as)) = 88 + length (attrs_bytes h as)"
  "length fl = 10 \<Longrightarrow> length (envelope_bytes h (DoneEnv fl p)) = 16 + length p"
  "length fl = 10 \<Longrightarrow> length (envelope_bytes h (ErrEnv fl x p)) = 20 + length p"
  "length fl = 10 \<Longrightarrow> length (envelope_bytes h (ShortErrEnv fl p)) = 16 + length p"
  "length (envelope_bytes h EndOfDump) = 16"
  "length (envelope_bytes h (ErrorEnv x)) = 36"
  by (simp_all add: length_nlmsg_bytes length_inet_diag_msg_bytes EndOfDump_def ErrorEnv_def)

lemma EndOfDump_simps [simp]:
  "envelope_ok h EndOfDump" "\<not> is_diag EndOfDump" "diag_samples h EndOfDump = []"
  "envelopes_result h w (EndOfDump # es) s = Some (Done s)"
  by (simp_all add: EndOfDump_def)

lemma ErrorEnv_simps [simp]:
  "envelope_ok h (ErrorEnv x)" "\<not> is_diag (ErrorEnv x)" "diag_samples h (ErrorEnv x) = []"
  "envelopes_result h w (ErrorEnv x # es) s = Some (Failed (sint (- x)) s)"
  by (simp_all add: ErrorEnv_def)

declare envelope_bytes.simps [simp del]

lemmas length_wire = length_datagram_Nil length_datagram_Cons length_attrs_bytes_Nil
  length_attrs_bytes_Cons length_envelope_bytes

lemma conn_ok_conn1: "conn_ok conn1"
  by (simp add: conn_ok_def conn1_def)

lemma sockdiag_sample_world_of:
  "0 \<le> r \<Longrightarrow> sockdiag_sample h (world_of r ds ok) fd fam s
     = drain h (world_of r ds ok) fd zero_mem 0 (grow (world_of r ds ok) empty_samples)"
  by (simp add: sockdiag_sample_def send_request_def world_of_def)

lemma recv_world_of:
  "recv (world_of r ds ok) fd k = (if k < length ds then RecvData (ds ! k) else RecvErr)"
  by (simp add: world_of_def)

lemma grow_world_of:
  "grow (world_of r ds True) empty_samples = store_of [] 16"
  "grow (world_of r ds False) empty_samples = \<lparr>sample = None, len = 0, cap = 16\<rparr>"
  by (simp_all add: grow_def empty_samples_def store_of_def realloc_def INIT_CAP_def world_of_def)

lemma done_only:
  "sockdiag_sample host_le (world_of 72 [datagram host_le [EndOfDump]] ok) fd fam s
    = Some (Return 0 None (grow (world_of 72 [datagram host_le [EndOfDump]] ok) empty_samples) 1)"
proof -
  let ?w = "world_of 72 [datagram host_le [EndOfDump]] ok"
  have "drain host_le ?w fd b 0 s' = Some (Return 0 None s' 1)" for b s'
    by (subst drain_datagram [where es = "[EndOfDump]"])
      (simp_all add: recv_world_of length_wire sizeof_b_def)
  then show ?thesis
    by (simp add: sockdiag_sample_world_of)
qed

subsection \<open>The receive loop on a stream of messages\<close>

lemma envelopes_result_diags:
  "list_all is_diag es \<Longrightarrow>
     envelopes_result h w (es @ es') s
       = do { s' \<leftarrow> appends w s (dump_samples h es); envelopes_result h w es' s' }"
proof (induction es arbitrary: s)
  case Nil
  show ?case by (simp add: dump_samples_def)
next
  case (Cons e es)
  then obtain ty fl c as where e: "e = Diag ty fl c as"
    by (cases e) simp_all
  from Cons have "envelopes_result h w (es @ es') s1
      = do { s' \<leftarrow> appends w s1 (dump_samples h es); envelopes_result h w es' s' }" for s1
    by simp
  then show ?case
    by (simp add: e dump_samples_def appends_append split: bind_split)
qed

lemma drain_diag_datagrams:
  "(\<And>i. i < length pre \<Longrightarrow> recv w fd (k + i) = RecvData (datagram h (pre ! i)))
    \<Longrightarrow> (\<And>d. d \<in> set pre \<Longrightarrow> list_all (envelope_ok h) d \<and> length (datagram h d) \<le> sizeof_b
          \<and> list_all is_diag d)
    \<Longrightarrow> drain h w fd b k s =
        (case appends w s (concat (map (dump_samples h) pre)) of
           None \<Rightarrow> Some Fault
         | Some s' \<Rightarrow> drain h w fd (foldl recv_into b (map (datagram h) pre)) (k + length pre) s')"
proof (induction pre arbitrary: b k s)
  case Nil
  show ?case by simp
next
  case (Cons d pre)
  from Cons.prems(1) [of 0] have r: "recv w fd k = RecvData (datagram h d)"
    by simp
  from Cons.prems(2) [of d] have ok: "list_all (envelope_ok h) d"
    and fit: "length (datagram h d) \<le> sizeof_b" and dg: "list_all is_diag d"
    by simp_all
  have er: "envelopes_result h w d s = map_option More (appends w s (dump_samples h d))"
    using envelopes_result_diags [OF dg, of h w "[]" s]
    by (cases "appends w s (dump_samples h d)") simp_all
  have rest: "drain h w fd (recv_into b (datagram h d)) (Suc k) s1 =
      (case appends w s1 (concat (map (dump_samples h) pre)) of
         None \<Rightarrow> Some Fault
       | Some s' \<Rightarrow> drain h w fd (foldl recv_into b (map (datagram h) (d # pre)))
                      (k + length (d # pre)) s')" for s1
  proof -
    have "recv w fd (Suc k + i) = RecvData (datagram h (pre ! i))" if "i < length pre" for i
      using Cons.prems(1) [of "Suc i"] that by simp
    moreover have "list_all (envelope_ok h) d' \<and> length (datagram h d') \<le> sizeof_b
        \<and> list_all is_diag d'" if "d' \<in> set pre" for d'
      using Cons.prems(2) [of d'] that by simp
    ultimately show ?thesis
      using Cons.IH [of "Suc k" "recv_into b (datagram h d)" s1]
      by (simp split: option.split)
  qed
  show ?case
    unfolding drain_datagram [OF r ok fit] er
    by (cases "appends w s (dump_samples h d)") (simp_all add: appends_append rest split: option.split)
qed

lemma drain_done_datagram:
  assumes "recv w fd k = RecvData (datagram h (es @ [DoneEnv fl p]) @ tail)"
    and "list_all (envelope_ok h) (es @ [DoneEnv fl p])"
    and "length (datagram h (es @ [DoneEnv fl p]) @ tail) \<le> sizeof_b"
    and "list_all is_diag es"
  shows "drain h w fd b k s =
     (case appends w s (dump_samples h es) of
        None \<Rightarrow> Some Fault
      | Some s' \<Rightarrow> Some (Return 0 None s' (Suc k)))"
proof -
  define d where "d = datagram h (es @ [DoneEnv fl p]) @ tail"
  have "nlmsg_walk h w (recv_into b d) 0 (int (min (length d) sizeof_b)) s
      = (case appends w s (dump_samples h es) of None \<Rightarrow> None | Some s' \<Rightarrow> Some (Done s'))"
    unfolding d_def nlmsg_walk_recv_tail [OF assms(2,3)] envelopes_result_diags [OF assms(4)]
    by (simp split: bind_split)
  moreover from assms(1) have "recv w fd k = RecvData d"
    by (simp only: d_def)
  ultimately show ?thesis
    by (subst drain.simps) (simp split: option.split)
qed





lemma buffer_at_Suc:
  "recv w fd k = RecvData d \<Longrightarrow> buffer_at w fd (Suc k) = recv_into (buffer_at w fd k) d"
  by simp






lemma sockdiag_sample_stream_tail:
  assumes send: "0 \<le> send_request w fd fam"
    and pre: "\<forall>i<length pre. recv w fd i = RecvData (datagram h (pre ! i))"
    and last: "recv w fd (length pre) = RecvData (datagram h (es @ [DoneEnv fl p]) @ tail)"
    and okp: "\<forall>d\<in>set pre. list_all (envelope_ok h) d \<and> length (datagram h d) \<le> sizeof_b"
    and okl: "list_all (envelope_ok h) (es @ [DoneEnv fl p])"
      "length (datagram h (es @ [DoneEnv fl p]) @ tail) \<le> sizeof_b"
    and diag: "\<forall>d\<in>set (pre @ [es]). list_all is_diag d"
  shows "sockdiag_sample h w fd fam s0 =
     (case appends w (grow w empty_samples) (concat (map (dump_samples h) (pre @ [es]))) of
        None \<Rightarrow> Some Fault
      | Some s' \<Rightarrow> Some (Return 0 None s' (Suc (length pre))))"
proof -
  let ?s = "grow w empty_samples"
  have 1: "drain h w fd (stack w) 0 ?s =
      (case appends w ?s (concat (map (dump_samples h) pre)) of
         None \<Rightarrow> Some Fault
       | Some s' \<Rightarrow> drain h w fd (foldl recv_into (stack w) (map (datagram h) pre))
                      (0 + length pre) s')"
  proof (rule drain_diag_datagrams)
    fix i assume "i < length pre"
    with pre show "recv w fd (0 + i) = RecvData (datagram h (pre ! i))" by simp
  next
    fix d assume "d \<in> set pre"
    with okp diag show "list_all (envelope_ok h) d \<and> length (datagram h d) \<le> sizeof_b
        \<and> list_all is_diag d"
      by simp
  qed
  have 2: "drain h w fd b (length pre) s =
      (case appends w s (dump_samples h es) of
         None \<Rightarrow> Some Fault
       | Some s' \<Rightarrow> Some (Return 0 None s' (Suc (length pre))))" for b s
    using diag by (intro drain_done_datagram [OF last okl]) simp
  from send have "sockdiag_sample h w fd fam s0 = drain h w fd (stack w) 0 ?s"
    by (simp add: sockdiag_sample_def)
  then show ?thesis
    unfolding 1
    by (simp add: 2 appends_append split: option.split bind_split)
qed

lemma sockdiag_sample_stream:
  assumes send: "0 \<le> send_request w fd fam"
    and pre: "\<forall>i<length pre. recv w fd i = RecvData (datagram h (pre ! i))"
    and last: "recv w fd (length pre) = RecvData (datagram h (es @ EndOfDump # []))"
    and ok: "\<forall>d\<in>set (pre @ [es @ EndOfDump # []]).
               list_all (envelope_ok h) d \<and> length (datagram h d) \<le> sizeof_b"
    and diag: "\<forall>d\<in>set (pre @ [es]). list_all is_diag d"
  shows "sockdiag_sample h w fd fam s0 =
     (case appends w (grow w empty_samples) (concat (map (dump_samples h) (pre @ [es]))) of
        None \<Rightarrow> Some Fault
      | Some s' \<Rightarrow> Some (Return 0 None s' (Suc (length pre))))"
proof (rule sockdiag_sample_stream_tail [OF send pre _ _ _ _ diag,
    where fl = "replicate 10 0" and p = "[]" and tail = "[]"])
  from last show "recv w fd (length pre)
      = RecvData (datagram h (es @ [DoneEnv (replicate 10 0) []]) @ [])"
    by (simp add: EndOfDump_def)
  from ok show "\<forall>d\<in>set pre. list_all (envelope_ok h) d \<and> length (datagram h d) \<le> sizeof_b"
    by simp
  from ok show "list_all (envelope_ok h) (es @ [DoneEnv (replicate 10 0) []])"
    and "length (datagram h (es @ [DoneEnv (replicate 10 0) []]) @ []) \<le> sizeof_b"
    by (simp_all add: EndOfDump_def)
qed

lemma two_infos_ok: "list_all (envelope_ok host_le) two_infos"
  "list_all is_diag two_infos"
  "length (datagram host_le (two_infos @ EndOfDump # [])) \<le> sizeof_b"
  "dump_samples host_le two_infos = [sample_of host_le conn1 info1, sample_of host_le conn1 info2]"
  by (simp_all add: two_infos_def conn_ok_conn1 attr_ok_def host_le_def info1_def info2_def
      INET_DIAG_INFO_def length_wire RTA_ALIGN_def sizeof_b_def dump_samples_def attr_samples_def
      SOCK_DIAG_BY_FAMILY_def NLMSG_DONE_def NLMSG_ERROR_def)


lemma appends_null:
  "appends w \<lparr>sample = None, len = 0, cap = 16\<rparr> (x # xs) = None"
  by (simp add: append_sample_def put_sample_def)

lemma nlmsg_header_len:
  assumes b: "holds b hoff (nlmsg_bytes h ty fl body)" and fl: "length fl = 10"
    and fit: "hoff + length (nlmsg_bytes h ty fl body) \<le> sizeof_b"
  shows "rd_u32 h b hoff = Some (of_nat (16 + length body))"
    and "rd_u16 h b (hoff + 4) = Some ty"
proof -
  from b have 1: "holds b hoff (enc_native h 4 (16 + length body))"
    and 2: "holds b (hoff + 4) (enc_native h 2 (unat ty))"
    by (simp_all add: nlmsg_bytes_def holds_append add.assoc)
  from fit fl have f: "hoff + 4 \<le> sizeof_b" "hoff + 4 + 2 \<le> sizeof_b"
    by (simp_all add: length_nlmsg_bytes)
  show "rd_u32 h b hoff = Some (of_nat (16 + length body))"
    by (rule rd_u32_enc [OF 1 f(1)])
  show "rd_u16 h b (hoff + 4) = Some ty"
    using rd_u16_enc [OF 2 f(2)] by simp
qed

lemma error_env_memory:
  fixes b :: mem and x :: "32 word"
  defines "m \<equiv> recv_into b (datagram host_le [ErrorEnv x])"
  shows "rd_u32 host_le m 0 = Some 36" and "rd_u16 host_le m 4 = Some NLMSG_ERROR"
    and "rd_u32 host_le m 16 = Some x" and "NLMSG_OK host_le m 0 36 = Some True"
proof -
  have len: "length (datagram host_le [ErrorEnv x]) = 36"
    by (simp add: length_wire)
  then have "holds m 0 (datagram host_le [ErrorEnv x])"
    unfolding m_def by (intro holds_recv_into) (simp add: sizeof_b_def)
  then have h: "holds m 0 (nlmsg_bytes host_le NLMSG_ERROR (replicate 10 0)
      (enc_native host_le 4 (unat x) @ replicate 16 0))"
    by (simp add: datagram_def envelope_bytes.simps ErrorEnv_def)
  have fl: "length (replicate 10 (0 :: 8 word)) = 10"
    by simp
  have fit: "0 + length (nlmsg_bytes host_le NLMSG_ERROR (replicate 10 0)
      (enc_native host_le 4 (unat x) @ replicate 16 0)) \<le> sizeof_b"
    by (simp add: length_nlmsg_bytes sizeof_b_def)
  from nlmsg_header_len [OF h fl fit] show l: "rd_u32 host_le m 0 = Some 36"
    and "rd_u16 host_le m 4 = Some NLMSG_ERROR"
    by simp_all
  from h have "holds m 16 (enc_native host_le 4 (unat x))"
    by (simp add: nlmsg_bytes_def holds_append)
  then show "rd_u32 host_le m 16 = Some x"
    using rd_u32_enc [of m 16 host_le "unat x"] by (simp add: sizeof_b_def)
  from l show "NLMSG_OK host_le m 0 36 = Some True"
    by (simp add: NLMSG_OK_def sizeof_nlmsghdr_def)
qed

subsection \<open>Attributes that stop or mislead the walk\<close>

lemma appends_room:
  "length xs + length ys \<le> cp \<Longrightarrow> 16 \<le> cp \<Longrightarrow> cp < 2 ^ 32
    \<Longrightarrow> appends w (store_of xs cp) ys = Some (store_of (xs @ ys) cp)"
proof (induction ys arbitrary: xs)
  case Nil
  show ?case by simp
next
  case (Cons y ys)
  from Cons.prems have lt: "length xs < cp"
    by simp
  then have "append_sample w (store_of xs cp) y = Some (store_of (xs @ [y]) cp)"
    using append_store_of [of xs cp w y] Cons.prems by simp
  moreover from Cons.prems have "appends w (store_of (xs @ [y]) cp) ys
      = Some (store_of ((xs @ [y]) @ ys) cp)"
    by (intro Cons.IH) simp_all
  ultimately show ?case
    by simp
qed

lemma rta_walk_bad:
  assumes "holds b aoff bad" and "aoff + length bad \<le> sizeof_b"
    and "length bad < 4
         \<or> (\<exists>l. take 2 bad = enc_native h 2 l \<and> l < 65536 \<and> (l < 4 \<or> length bad < l))"
  shows "rta_walk h w b moff aoff (int (length bad)) s = Some s"
proof (cases "length bad < 4")
  case True
  then show ?thesis
    by (simp add: rta_walk_end)
next
  case False
  with assms(3) obtain l where l: "take 2 bad = enc_native h 2 l" "l < 65536"
    "l < 4 \<or> length bad < l"
    by blast
  have "bad = take 2 bad @ drop 2 bad"
    by simp
  with assms(1) have "holds b aoff (take 2 bad @ drop 2 bad)"
    by simp
  then have "holds b aoff (enc_native h 2 l)"
    unfolding holds_append l(1) by simp
  moreover from False assms(2) have "aoff + 2 \<le> sizeof_b"
    by simp
  ultimately have rd: "rd_u16 h b aoff = Some (of_nat l)"
    by (rule rd_u16_enc)
  from l(2) have u: "unat (of_nat l :: 16 word) = l"
    by (rule unat_of_nat16)
  from l(3) have "RTA_OK h b aoff (int (length bad)) = Some False"
    by (auto simp: RTA_OK_def rd u sizeof_rtattr_def simp del: of_nat_unat)
  then show ?thesis
    by (subst rta_walk.simps) simp
qed

lemma rta_walk_attrs_bad:
  assumes m: "holds b moff (inet_diag_msg_bytes c)" "conn_ok c" "moff + 72 \<le> sizeof_b"
    and as: "list_all (attr_ok h) as"
    and mem: "holds b aoff (attrs_bytes h as @ bad)"
    and fit: "aoff + length (attrs_bytes h as @ bad) \<le> sizeof_b"
    and bad: "length bad < 4
         \<or> (\<exists>l. take 2 bad = enc_native h 2 l \<and> l < 65536 \<and> (l < 4 \<or> length bad < l))"
  shows "rta_walk h w b moff aoff (int (length (attrs_bytes h as @ bad))) s
    = appends w s (attr_samples h c as)"
proof -
  let ?L = "length (attrs_bytes h as)"
  from mem have h1: "holds b aoff (attrs_bytes h as)" and h2: "holds b (aoff + ?L) bad"
    by (simp_all add: holds_append)
  from fit have f1: "aoff + ?L \<le> sizeof_b" and f2: "aoff + ?L + length bad \<le> sizeof_b"
    by simp_all
  have "rta_walk h w b moff aoff (int (length (attrs_bytes h as @ bad))) s =
      do { s' \<leftarrow> appends w s (attr_samples h c as);
           rta_walk h w b moff (aoff + ?L) (int (length (attrs_bytes h as @ bad)) - int ?L) s' }"
    by (rule rta_walk_attrs [OF m as h1 f1]) simp
  moreover have "int (length (attrs_bytes h as @ bad)) - int ?L = int (length bad)"
    by simp
  ultimately show ?thesis
    by (simp only: rta_walk_bad [OF h2 f2 bad]) simp
qed

lemma attr_samples_one:
  "filter (\<lambda>a. attr_type a = INET_DIAG_INFO) as = [a]
    \<Longrightarrow> attr_samples h c as = [sample_of h c (attr_payload a)]"
  by (simp add: attr_samples_def)

lemma rta_walk_short_info:
  assumes m: "holds b moff (inet_diag_msg_bytes c)" "conn_ok c" "moff + 72 \<le> sizeof_b"
    and mem: "holds b aoff (rtattr_bytes h (Attr INET_DIAG_INFO p []) @ extra)"
    and p: "4 + length p < 65536" "4 dvd length p"
    and t: "length p + length extra = sizeof_tcp_info h"
    and fit: "aoff + 4 + length p + length extra \<le> sizeof_b"
  shows "rta_walk h w b moff aoff (int (4 + length p)) s
    = append_sample w s (sample_of h c (p @ extra))"
proof -
  let ?a = "Attr INET_DIAG_INFO p []"
  from p(2) have al: "RTA_ALIGN (length p) = length p"
    unfolding RTA_ALIGN_def by presburger
  have len: "length (rtattr_bytes h ?a) = 4 + length p"
    by (simp add: length_rtattr_bytes_raw)
  have bytes: "rtattr_bytes h ?a = enc_native h 2 (4 + length p) @ enc_native h 2 INET_DIAG_INFO @ p"
    by (simp add: rtattr_bytes_def)
  from mem have h1: "holds b aoff (rtattr_bytes h ?a)"
    and h2: "holds b (aoff + 4) (p @ extra)"
    unfolding bytes by (simp_all add: holds_append add.assoc)
  from fit have f: "aoff + length (rtattr_bytes h ?a) \<le> sizeof_b"
    by (simp add: len)
  have a1: "4 + length (attr_payload ?a) < 65536" and a2: "attr_type ?a < 65536"
    using p(1) by (simp_all add: INET_DIAG_INFO_def)
  from rtattr_header [OF h1 a1 a2 f] obtain l ty
    where l': "rd_u16 h b aoff = Some l" "unat l = 4 + length (attr_payload ?a)"
      and ty': "rd_u16 h b (aoff + 2) = Some ty" "unat ty = attr_type ?a"
    by blast
  then have l: "rd_u16 h b aoff = Some l" "unat l = 4 + length p"
    and ty: "rd_u16 h b (aoff + 2) = Some ty" "unat ty = INET_DIAG_INFO"
    by simp_all
  define r where "r = int (4 + length p)"
  have "4 \<le> unat l" "int (unat l) \<le> r"
    unfolding l(2) r_def by simp_all
  with l(1) have okk: "RTA_OK h b aoff r = Some True"
    by (rule RTA_OK_I)
  have nx: "RTA_NEXT h b aoff r = Some (aoff + (4 + length p), 0)"
    using RTA_NEXT_I [OF l(1), of r]
    by (simp only: l(2) RTA_ALIGN_4 al) (simp add: r_def)
  have rs: "read_sample h b moff aoff = Some (sample_of h c (p @ extra))"
  proof (rule read_sample_conn [OF m(1,2) h2 _ m(3)])
    from t show "sizeof_tcp_info h \<le> length (p @ extra)" by simp
    from fit show "aoff + 4 + length (p @ extra) \<le> sizeof_b" by simp
  qed
  have "rta_walk h w b moff aoff r s = append_sample w s (sample_of h c (p @ extra))"
    by (subst rta_walk.simps) (simp add: okk ty nx rs rta_walk_end split: bind_split)
  then show ?thesis
    by (simp only: r_def)
qed


lemma conn1_fields:
  "c_family conn1 = AF_INET" "c_sport conn1 = 40000" "c_dport conn1 = 80"
  "c_src conn1 = [10, 0, 0, 1] @ replicate 12 0" "c_dst conn1 = [10, 0, 0, 2] @ replicate 12 0"
  by (simp_all add: conn1_def)

lemma two_attrs_ok:
  "list_all (attr_ok host_le) two_attrs"
  "filter (\<lambda>a. attr_type a = INET_DIAG_INFO) two_attrs = [Attr INET_DIAG_INFO info1 []]"
  "length (attrs_bytes host_le two_attrs) = 24"
  by (simp_all add: two_attrs_def attr_ok_def host_le_def info1_def info2_def INET_DIAG_INFO_def
      length_wire RTA_ALIGN_def)


lemma parse_response_attrs:
  assumes mem: "holds b moff (inet_diag_msg_bytes c @ attrs_bytes h as)"
    and fit: "moff + length (inet_diag_msg_bytes c @ attrs_bytes h as) \<le> sizeof_b"
    and ok: "conn_ok c" "list_all (attr_ok h) as"
  shows "parse_response h w b moff (int (length (attrs_bytes h as))) s
    = appends w s (attr_samples h c as)"
proof -
  let ?A = "attrs_bytes h as"
  from mem ok(1) have m: "holds b moff (inet_diag_msg_bytes c)"
    and a: "holds b (moff + 72) (?A @ [])"
    by (simp_all add: holds_append length_inet_diag_msg_bytes)
  from fit ok(1) have f: "moff + 72 \<le> sizeof_b" "moff + 72 + length (?A @ []) \<le> sizeof_b"
    by (simp_all add: length_inet_diag_msg_bytes)
  have "rta_walk h w b moff (moff + 72) (int (length (?A @ []))) s
      = appends w s (attr_samples h c as)"
    by (rule rta_walk_attrs_bad [OF m ok(1) f(1) ok(2) a f(2)]) simp
  then show ?thesis
    by (simp add: parse_response_def sizeof_inet_diag_msg_def)
qed

lemma long_payload_eval:
  "parse_response host_le (world_of 72 [] True)
      (recv_into zero_mem (inet_diag_msg_bytes conn1 @ attrs_bytes host_le [long_info])) 0
      (int (length (attrs_bytes host_le [long_info]))) (store_of [] 16)
     = Some (store_of [sample_of host_le conn1 (attr_payload long_info)] 16)"
  "attr_payload long_info = info1 @ [9, 9, 9, 9]"
  "info (sample_of host_le conn1 (attr_payload long_info)) = info1"
proof -
  let ?d = "inet_diag_msg_bytes conn1 @ attrs_bytes host_le [long_info]"
  have la: "length (attrs_bytes host_le [long_info]) = 16"
    by (simp add: length_wire long_info_def info1_def RTA_ALIGN_def)
  have len: "length ?d = 88"
    by (simp add: length_inet_diag_msg_bytes conn_ok_conn1 la)
  then have mem: "holds (recv_into zero_mem ?d) 0 ?d"
    by (intro holds_recv_into) (simp add: sizeof_b_def)
  from len have fit: "0 + length ?d \<le> sizeof_b"
    by (simp add: sizeof_b_def)
  have ok: "list_all (attr_ok host_le) [long_info]"
    by (simp add: attr_ok_def long_info_def info1_def host_le_def INET_DIAG_INFO_def RTA_ALIGN_def)
  have as: "attr_samples host_le conn1 [long_info]
      = [sample_of host_le conn1 (attr_payload long_info)]"
    by (simp add: attr_samples_def long_info_def)
  from parse_response_attrs [OF mem fit conn_ok_conn1 ok, of "world_of 72 [] True" "store_of [] 16"]
    appends_room [of "[]" "[sample_of host_le conn1 (attr_payload long_info)]" 16
      "world_of 72 [] True"]
  show "parse_response host_le (world_of 72 [] True)
      (recv_into zero_mem (inet_diag_msg_bytes conn1 @ attrs_bytes host_le [long_info])) 0
      (int (length (attrs_bytes host_le [long_info]))) (store_of [] 16)
     = Some (store_of [sample_of host_le conn1 (attr_payload long_info)] 16)"
    by (simp add: as del: appends.simps)
  show "attr_payload long_info = info1 @ [9, 9, 9, 9]"
    by (simp add: long_info_def)
  show "info (sample_of host_le conn1 (attr_payload long_info)) = info1"
    by (simp add: sample_of_def long_info_def host_le_def info1_def)
qed

lemma short_payload_eval:
  "attrs_bytes host_le [short_info] = rtattr_bytes host_le short_info
   \<and> length (rtattr_bytes host_le short_info) = 8
   \<and> parse_response host_le (world_of 72 [] True)
        (recv_into zero_mem
           (inet_diag_msg_bytes conn1 @ rtattr_bytes host_le short_info @ [9, 9, 9, 9])) 0 8
        (store_of [] 16)
       = Some (store_of [sample_of host_le conn1 ([1, 2, 3, 4] @ [9, 9, 9, 9])] 16)
   \<and> attr_payload short_info = [1, 2, 3, 4]
   \<and> info (sample_of host_le conn1 ([1, 2, 3, 4] @ [9, 9, 9, 9])) = [1, 2, 3, 4, 9, 9, 9, 9]"
proof -
  let ?a = "rtattr_bytes host_le (Attr INET_DIAG_INFO [1, 2, 3, 4] [])"
  let ?d = "inet_diag_msg_bytes conn1 @ ?a @ [9, 9, 9, 9]"
  let ?m = "recv_into zero_mem ?d"
  let ?x = "sample_of host_le conn1 ([1, 2, 3, 4] @ [9, 9, 9, 9])"
  have la: "length ?a = 8"
    by (simp add: length_rtattr_bytes_raw)
  have len: "length ?d = 84"
    by (simp add: length_inet_diag_msg_bytes conn_ok_conn1 la)
  then have "holds ?m 0 ?d"
    by (intro holds_recv_into) (simp add: sizeof_b_def)
  then have m: "holds ?m 0 (inet_diag_msg_bytes conn1)"
    and a: "holds ?m 72 (?a @ [9, 9, 9, 9])"
    by (simp_all add: holds_append length_inet_diag_msg_bytes conn_ok_conn1)
  have lp: "length [1, 2, 3, 4 :: 8 word] = 4" and le: "length [9, 9, 9, 9 :: 8 word] = 4"
    by simp_all
  have "rta_walk host_le (world_of 72 [] True) ?m 0 72 (int (4 + length [1, 2, 3, 4 :: 8 word]))
      (store_of [] 16) = append_sample (world_of 72 [] True) (store_of [] 16) ?x"
  proof (rule rta_walk_short_info [OF m conn_ok_conn1 _ a])
    show "0 + 72 \<le> sizeof_b"
      by (simp add: sizeof_b_def)
    show "4 + length [1, 2, 3, 4 :: 8 word] < 65536" and "4 dvd length [1, 2, 3, 4 :: 8 word]"
      and "length [1, 2, 3, 4 :: 8 word] + length [9, 9, 9, 9 :: 8 word] = sizeof_tcp_info host_le"
      and "72 + 4 + length [1, 2, 3, 4 :: 8 word] + length [9, 9, 9, 9 :: 8 word] \<le> sizeof_b"
      unfolding lp le by (simp_all add: sizeof_b_def host_le_def)
  qed
  moreover have "append_sample (world_of 72 [] True) (store_of [] 16) ?x
      = Some (store_of ([] @ [?x]) 16)"
    using appends_room [of "[]" "[?x]" 16 "world_of 72 [] True"] by simp
  ultimately have c3: "parse_response host_le (world_of 72 [] True)
      (recv_into zero_mem
         (inet_diag_msg_bytes conn1 @ rtattr_bytes host_le short_info @ [9, 9, 9, 9])) 0 8
      (store_of [] 16) = Some (store_of [?x] 16)"
    by (simp add: parse_response_def sizeof_inet_diag_msg_def short_info_def)
  have c1: "attrs_bytes host_le [short_info] = rtattr_bytes host_le short_info"
    by (simp add: attrs_bytes_def)
  have c2: "length (rtattr_bytes host_le short_info) = 8"
    using la by (simp add: short_info_def)
  have c4: "attr_payload short_info = [1, 2, 3, 4]"
    by (simp add: short_info_def)
  have c5: "info ?x = [1, 2, 3, 4, 9, 9, 9, 9]"
    by (simp add: sample_of_def host_le_def)
  from c1 c2 c3 c4 c5 show ?thesis
    by (intro conjI)
qed

subsection \<open>The malformed attribute, the concrete dump, and the bytes of a record\<close>





lemma conn2_facts:
  "conn_ok conn2"
  "c_family conn2 = AF_INET" "c_sport conn2 = 40000" "c_dport conn2 = 80"
  "c_src conn2 = [10, 0, 0, 1] @ replicate 12 0" "c_dst conn2 = [10, 0, 0, 2] @ replicate 12 0"
  by (simp_all add: conn2_def conn_ok_def)




lemma enc_dec_port: "length bs = 2 \<Longrightarrow> enc_port (dec_port bs) = bs"
proof -
  assume "length bs = 2"
  then obtain x y where bs: "bs = [x, y]"
    by (cases bs; cases "tl bs") auto
  have "(ucast (drop_bit 8 (push_bit 8 (ucast x :: 16 word) OR ucast y)) :: 8 word) = x"
    by (rule bit_word_eqI) (auto simp: bit_simps dest: bit_imp_le_length)
  moreover have "(ucast (push_bit 8 (ucast x :: 16 word) OR ucast y) :: 8 word) = y"
    by (rule bit_word_eqI) (auto simp: bit_simps dest: bit_imp_le_length)
  ultimately show ?thesis
    by (simp add: bs enc_port_def dec_port_def)
qed

lemma conn_of_bytes:
  assumes "length bs = 72"
  shows "conn_ok (conn_of bs)" and "inet_diag_msg_bytes (conn_of bs) = bs"
proof -
  from assms show "conn_ok (conn_of bs)"
    by (simp add: conn_ok_def conn_of_def)
  from assms have "bs \<noteq> []"
    by auto
  then have 1: "[bs ! 0] = take 1 bs"
    by (cases bs) simp_all
  have "inet_diag_msg_bytes (conn_of bs)
      = take 1 bs @ take 3 (drop 1 bs) @ take 2 (drop 4 bs) @ take 2 (drop 6 bs)
        @ take 16 (drop 8 bs) @ take 16 (drop 24 bs) @ drop 40 bs"
    using assms by (simp add: inet_diag_msg_bytes_def conn_of_def enc_dec_port 1 del: take_Suc_Cons)
  also have "\<dots> = bs"
    using append_take_drop_id [of 1 bs] append_take_drop_id [of 3 "drop 1 bs"]
      append_take_drop_id [of 2 "drop 4 bs"] append_take_drop_id [of 2 "drop 6 bs"]
      append_take_drop_id [of 16 "drop 8 bs"] append_take_drop_id [of 16 "drop 24 bs"]
    by (simp only: drop_drop) simp
  finally show "inet_diag_msg_bytes (conn_of bs) = bs" .
qed

subsection \<open>The request\<close>

text \<open>
  C8. For every address family the request handed to \<^verbatim>\<open>sendmsg\<close> is one message of two
  pieces, a 16-byte header and a 56-byte filter record, 72 bytes as the header's length field
  says. The filter selects that family and protocol TCP; bit \<open>i\<close> of its state mask is set
  exactly for \<open>i = TCP_ESTABLISHED\<close>; the bit of extension \<^verbatim>\<open>INET_DIAG_INFO\<close> is set in its
  extension mask. The header has type \<^verbatim>\<open>SOCK_DIAG_BY_FAMILY\<close> and carries the dump and
  request flags. Building the request has no failure of its own: the result of
  \<^verbatim>\<open>send_request\<close> is the result of \<^verbatim>\<open>sendmsg\<close>.
\<close>

theorem send_request_message:
  "send_request w fd fam = sendmsg w fd (request_msg fam)
   \<and> msg_iovlen (request_msg fam) = 2
   \<and> map iov_base (msg_iov (request_msg fam))
       = [Base_nlmsghdr request_header, Base_req (request_body fam)]
   \<and> map iov_len (msg_iov (request_msg fam)) = [16, 56]
   \<and> nlmsg_len request_header = 72
   \<and> nlmsg_type request_header = SOCK_DIAG_BY_FAMILY
   \<and> nlmsg_flags request_header AND NLM_F_DUMP = NLM_F_DUMP
   \<and> nlmsg_flags request_header AND NLM_F_REQUEST = NLM_F_REQUEST
   \<and> sdiag_family (request_body fam) = fam
   \<and> sdiag_protocol (request_body fam) = IPPROTO_TCP
   \<and> bit (idiag_states (request_body fam)) i = (i = TCP_ESTABLISHED)
   \<and> bit (idiag_ext (request_body fam)) (INET_DIAG_INFO - 1)"
proof -
  have "bit (2 :: 32 word) i = (i = 1)"
    using bit_push_bit_iff [of 1 "1 :: 32 word" i] by (auto simp: bit_simps)
  then show ?thesis
    by (simp add: send_request_def request_msg_def request_header_def request_body_def header_defs)
qed

subsection \<open>A failed send\<close>

text \<open>
  C9. When sending the request fails, \<^verbatim>\<open>sockdiag_sample\<close> returns -1 without a single
  \<^verbatim>\<open>recv\<close> and the caller's \<^verbatim>\<open>struct samples\<close> is what it was before the call:
  pointer, length and capacity.
\<close>

theorem send_failure_leaves_store:
  "send_request w fd fam < 0 \<Longrightarrow> sockdiag_sample h w fd fam s = Some (Return (- 1) None s 0)"
  by (simp add: sockdiag_sample_def)

theorem send_failure_leaves_store_witness:
  "send_request (world_of (- 1) [] True) 3 AF_INET < 0
   \<and> sockdiag_sample host_le (world_of (- 1) [] True) 3 AF_INET one_sample
       = Some (Return (- 1) None one_sample 0)"
  using send_failure_leaves_store [of "world_of (- 1) [] True" 3 AF_INET host_le one_sample]
  by (simp add: send_request_def world_of_def)

subsection \<open>Appending\<close>

text \<open>
  C3. Appending samples \<open>xs\<close> one after the other to the store of a fresh call (emptied
  and grown once, as \<^verbatim>\<open>sockdiag_sample\<close> does) succeeds when every allocation succeeds
  and there are at most \<open>2 ^ 31\<close> of them. The store then has length \<open>length xs\<close>, holds
  \<open>xs ! i\<close> in slot \<open>i\<close>, and has capacity \<open>cap_after (length xs)\<close>: 16 at first,
  doubled by each append that finds the length equal to the capacity, so for the first time
  by the 17th. The bound is needed: \<^verbatim>\<open>cap\<close> is a \<^verbatim>\<open>uint32_t\<close>, and doubling a capacity
  of \<open>2 ^ 31\<close> gives 0.
\<close>

theorem appends_keep_order:
  assumes "\<forall>c. realloc_ok w c" and "length xs \<le> 2 ^ 31"
  shows "appends w (grow w empty_samples) xs = Some (store_of xs (cap_after (length xs)))
    \<and> unat (len (store_of xs (cap_after (length xs)))) = length xs
    \<and> unat (cap (store_of xs (cap_after (length xs)))) = cap_after (length xs)
    \<and> (\<forall>i<length xs. the (sample (store_of xs (cap_after (length xs)))) ! i = Some (xs ! i))"
proof -
  from assms(2) have "length xs < 2 ^ 32"
    by simp
  then have "unat (of_nat (length xs) :: 32 word) = length xs"
    by (simp only: unat_of_nat32)
  moreover from cap_after_half [of "length xs"] assms(2) have "cap_after (length xs) < 2 ^ 32"
    by auto
  then have "unat (of_nat (cap_after (length xs)) :: 32 word) = cap_after (length xs)"
    by (simp only: unat_of_nat32)
  ultimately show ?thesis
    using appends_init [of w xs] assms
    by (simp add: store_of_def nth_append)
qed

theorem appends_keep_order_witness:
  "(\<forall>c. realloc_ok (world_of 0 [] True) c)
   \<and> length [sample_of host_le conn1 info1, sample_of host_le conn1 info2] \<le> 2 ^ 31
   \<and> appends (world_of 0 [] True) (grow (world_of 0 [] True) empty_samples)
        [sample_of host_le conn1 info1, sample_of host_le conn1 info2]
      = Some (store_of [sample_of host_le conn1 info1, sample_of host_le conn1 info2] 16)
   \<and> the (sample (store_of [sample_of host_le conn1 info1, sample_of host_le conn1 info2] 16)) ! 1
      = Some (sample_of host_le conn1 info2)"
  using appends_keep_order [of "world_of 0 [] True"
      "[sample_of host_le conn1 info1, sample_of host_le conn1 info2]"]
    cap_after_small [of 2]
  by (simp add: world_of_def)

text \<open>
  With \<open>2 ^ 31\<close> samples stored, length and capacity are both \<open>2 ^ 31\<close>; the next
  append doubles the capacity to 0 and writes outside the block.
\<close>

theorem appends_wrap_counterexample:
  "appends (world_of 0 [] True) (grow (world_of 0 [] True) empty_samples)
     (replicate (2 ^ 31) (sample_of host_le conn1 info1) @ [sample_of host_le conn1 info1]) = None"
proof -
  have "appends (world_of 0 [] True) (grow (world_of 0 [] True) empty_samples)
      (replicate (2 ^ 31) (sample_of host_le conn1 info1))
    = Some (store_of (replicate (2 ^ 31) (sample_of host_le conn1 info1)) (2 ^ 31))"
    using appends_init [of "world_of 0 [] True" "replicate (2 ^ 31) (sample_of host_le conn1 info1)"]
    by (simp add: world_of_def cap_after_2_31 [simplified])
  then show ?thesis
    by (simp add: appends_append append_overflow [simplified])
qed

subsection \<open>The store of a successful call\<close>



subsection \<open>Resetting the store\<close>

text \<open>
  C6. \<^verbatim>\<open>sockdiag_sample\<close> sends the request first. When the send succeeds it then resets
  the store (null pointer, length 0) and grows it once to the initial capacity, and the
  receive loop starts from that store: the outcome of the call does not depend on what the
  caller's store held before, so nothing of an earlier call is left in it.
\<close>

theorem store_reset_after_send:
  "0 \<le> send_request w fd fam \<Longrightarrow>
     sockdiag_sample h w fd fam s
       = drain h w fd (stack w) 0 \<lparr>sample = realloc w None INIT_CAP, len = 0, cap = INIT_CAP\<rparr>"
  by (simp add: sockdiag_sample_def grow_def empty_samples_def)

text \<open>A call on a store that still holds a sample from before; the dump is empty.\<close>

theorem store_reset_after_send_witness:
  "0 \<le> send_request (world_of 72 [datagram host_le [EndOfDump]] True) 3 AF_INET
   \<and> sockdiag_sample host_le (world_of 72 [datagram host_le [EndOfDump]] True) 3 AF_INET one_sample
       = drain host_le (world_of 72 [datagram host_le [EndOfDump]] True) 3
           (stack (world_of 72 [datagram host_le [EndOfDump]] True)) 0
           \<lparr>sample = realloc (world_of 72 [datagram host_le [EndOfDump]] True) None INIT_CAP,
            len = 0, cap = INIT_CAP\<rparr>
   \<and> sockdiag_sample host_le (world_of 72 [datagram host_le [EndOfDump]] True) 3 AF_INET one_sample
       = Some (Return 0 None (store_of [] 16) 1)"
  using store_reset_after_send [of "world_of 72 [datagram host_le [EndOfDump]] True" 3 AF_INET
      host_le one_sample]
  by (simp add: done_only grow_world_of) (simp add: send_request_def world_of_def)

text \<open>
  When the send fails the store is not reset: the call ends with the sample of the call
  before still in it.
\<close>

theorem store_not_reset_counterexample:
  "sockdiag_sample host_le (world_of (- 1) [] True) 3 AF_INET one_sample
     = Some (Return (- 1) None one_sample 0)
   \<and> len one_sample = 1 \<and> sample one_sample \<noteq> None"
  by (simp add: sockdiag_sample_def send_request_def world_of_def one_sample_def)

subsection \<open>The receive loop\<close>



subsection \<open>A failed allocation\<close>

text \<open>
  C1. What the code does when \<^verbatim>\<open>realloc\<close> fails, where the design asks for the call to be
  aborted with an out-of-memory error. \<^verbatim>\<open>grow\<close> does not look at the result of
  \<^verbatim>\<open>realloc\<close>: with an empty dump the call returns 0 with a null pointer and capacity 16;
  with a sample to store it writes through the null pointer.
\<close>

theorem grow_failure_unreported:
  "sockdiag_sample host_le (world_of 72 [datagram host_le [EndOfDump]] False) 3 AF_INET
      empty_samples
     = Some (Return 0 None \<lparr>sample = None, len = 0, cap = 16\<rparr> 1)
   \<and> sockdiag_sample host_le (world_of 72 [datagram host_le (two_infos @ EndOfDump # [])] False) 3
      AF_INET empty_samples
     = Some Fault"
proof -
  let ?w = "world_of 72 [datagram host_le (two_infos @ EndOfDump # [])] False"
  have "sockdiag_sample host_le ?w 3 AF_INET empty_samples =
      (case appends ?w (grow ?w empty_samples)
              (concat (map (dump_samples host_le) ([] @ [two_infos]))) of
         None \<Rightarrow> Some Fault
       | Some s' \<Rightarrow> Some (Return 0 None s' (Suc (length ([] :: envelope list list)))))"
    by (rule sockdiag_sample_stream)
      (simp_all add: two_infos_ok recv_world_of, simp add: send_request_def world_of_def)
  then show ?thesis
    by (simp add: done_only grow_world_of two_infos_ok appends_null del: appends.simps)
qed

subsection \<open>Error envelopes\<close>

text \<open>
  C2. When the loop is at an envelope that passes \<^verbatim>\<open>NLMSG_OK\<close> and has type
  \<^verbatim>\<open>NLMSG_ERROR\<close>, the walk ends in failure (\<^verbatim>\<open>sockdiag_sample\<close> returns -1): with
  \<^verbatim>\<open>errno = ENODATA\<close> when \<^verbatim>\<open>nlmsg_len\<close> is less than the length of an envelope with a
  \<^verbatim>\<open>struct nlmsgerr\<close>, and otherwise with \<^verbatim>\<open>errno\<close> the negation of the embedded 32-bit
  \<^verbatim>\<open>error\<close> field (the kernel stores the negative of an error number there). The store
  is left as it is.
\<close>

theorem error_envelope_code:
  assumes ok: "NLMSG_OK h b hoff n = Some True"
    and ty: "rd_u16 h b (hoff + 4) = Some NLMSG_ERROR"
    and l: "rd_u32 h b hoff = Some l"
    and fit: "hoff + nat n \<le> sizeof_b"
  shows "(unat l < NLMSG_LENGTH sizeof_nlmsgerr
            \<longrightarrow> nlmsg_walk h w b hoff n s = Some (Failed ENODATA s))
     \<and> (NLMSG_LENGTH sizeof_nlmsgerr \<le> unat l
            \<longrightarrow> (\<exists>e. rd_u32 h b (hoff + NLMSG_HDRLEN) = Some e
                  \<and> nlmsg_walk h w b hoff n s = Some (Failed (sint (- e)) s)))"
proof (intro conjI impI)
  assume "unat l < NLMSG_LENGTH sizeof_nlmsgerr"
  with ok ty l show "nlmsg_walk h w b hoff n s = Some (Failed ENODATA s)"
    by (subst nlmsg_walk.simps) (simp add: NLMSG_DONE_def NLMSG_ERROR_def)
next
  assume long: "NLMSG_LENGTH sizeof_nlmsgerr \<le> unat l"
  from ok l have "int (unat l) \<le> n"
    by (simp add: NLMSG_OK_def split: if_splits)
  then have "unat l \<le> nat n"
    by linarith
  with long fit have "hoff + NLMSG_HDRLEN + 4 \<le> sizeof_b"
    by (simp add: header_defs)
  then obtain e where e: "rd_u32 h b (hoff + NLMSG_HDRLEN) = Some e"
    by (simp add: rd_u32_def rd_def)
  with ok ty l long have "nlmsg_walk h w b hoff n s = Some (Failed (sint (- e)) s)"
    by (subst nlmsg_walk.simps) (simp add: NLMSG_DONE_def NLMSG_ERROR_def)
  with e show "\<exists>e. rd_u32 h b (hoff + NLMSG_HDRLEN) = Some e
      \<and> nlmsg_walk h w b hoff n s = Some (Failed (sint (- e)) s)"
    by blast
qed

text \<open>An error envelope of full length whose \<^verbatim>\<open>error\<close> field holds -2.\<close>

theorem error_envelope_code_witness:
  "NLMSG_OK host_le (recv_into zero_mem (datagram host_le [ErrorEnv (- 2)])) 0 36 = Some True
   \<and> rd_u16 host_le (recv_into zero_mem (datagram host_le [ErrorEnv (- 2)])) (0 + 4)
       = Some NLMSG_ERROR
   \<and> rd_u32 host_le (recv_into zero_mem (datagram host_le [ErrorEnv (- 2)])) 0 = Some 36
   \<and> 0 + nat 36 \<le> sizeof_b
   \<and> rd_u32 host_le (recv_into zero_mem (datagram host_le [ErrorEnv (- 2)])) (0 + NLMSG_HDRLEN)
       = Some (- 2)
   \<and> nlmsg_walk host_le (world_of 72 [] True)
        (recv_into zero_mem (datagram host_le [ErrorEnv (- 2)])) 0 36 one_sample
       = Some (Failed 2 one_sample)"
proof -
  let ?m = "recv_into zero_mem (datagram host_le [ErrorEnv (- 2)])"
  note m = error_env_memory [of zero_mem "- 2"]
  have fit: "0 + nat 36 \<le> sizeof_b"
    by (simp add: sizeof_b_def)
  from error_envelope_code [of host_le ?m 0 36 36 "world_of 72 [] True" one_sample] m fit
  show ?thesis
    by (simp add: header_defs)
qed

text \<open>
  The code reported is not the embedded field itself: for the field -2 the call fails with
  \<^verbatim>\<open>errno\<close> 2.
\<close>

theorem error_code_negated_counterexample:
  "sockdiag_sample host_le (world_of 72 [datagram host_le [ErrorEnv (- 2)]] True) 3 AF_INET
      empty_samples
     = Some (Return (- 1) (Some 2) (store_of [] 16) 1)
   \<and> rd_u32 host_le (recv_into zero_mem (datagram host_le [ErrorEnv (- 2)])) 16 = Some (- 2)
   \<and> sint (- 2 :: 32 word) = - 2"
proof -
  let ?w = "world_of 72 [datagram host_le [ErrorEnv (- 2)]] True"
  have "drain host_le ?w 3 b 0 s = Some (Return (- 1) (Some 2) s 1)" for b s
    by (subst drain_datagram [where es = "[ErrorEnv (- 2)]"])
      (simp_all add: recv_world_of length_wire sizeof_b_def)
  then show ?thesis
    by (simp add: sockdiag_sample_world_of grow_world_of error_env_memory)
qed

subsection \<open>One sample for an attribute\<close>

text \<open>
  C4. Let the memory hold a connection record, any 72 bytes, followed by well-formed
  attributes, exactly one of which is tagged \<^verbatim>\<open>INET_DIAG_INFO\<close>; its payload has at least
  \<^verbatim>\<open>sizeof(struct tcp_info)\<close> bytes (this is part of \<open>attr_ok\<close>). Then
  \<^verbatim>\<open>parse_response\<close> does exactly one append to the store, whatever the store is: of the
  sample whose family and ports are those of the record (the ports are in network byte
  order on the wire), whose addresses are the first 4 bytes of the record's followed by 12
  zero bytes for \<^verbatim>\<open>AF_INET\<close> and all 16 bytes otherwise, and whose \<open>info\<close> is the
  leading \<^verbatim>\<open>sizeof(struct tcp_info)\<close> bytes of the payload. The attributes of other tags
  add nothing and are no error. On a store that holds the samples \<open>xs\<close> in a block of
  \<open>cp\<close> slots the result holds \<open>xs\<close> and the new sample; the block is doubled first when
  it is full (the allocation succeeding, and \<open>cp\<close> below \<open>2 ^ 31\<close>).
\<close>

theorem info_attribute_sample:
  assumes mem: "holds b moff (inet_diag_msg_bytes c @ attrs_bytes h as)"
    and fit: "moff + length (inet_diag_msg_bytes c @ attrs_bytes h as) \<le> sizeof_b"
    and ok: "conn_ok c" "list_all (attr_ok h) as"
    and one: "filter (\<lambda>a. attr_type a = INET_DIAG_INFO) as = [a]"
  shows "parse_response h w b moff (int (length (attrs_bytes h as))) s
      = append_sample w s (sample_of h c (attr_payload a))
    \<and> (length xs \<le> cp \<and> 16 \<le> cp \<and> cp < 2 ^ 32
        \<and> (length xs = cp \<longrightarrow> cp < 2 ^ 31 \<and> realloc_ok w (of_nat (2 * cp)))
       \<longrightarrow> parse_response h w b moff (int (length (attrs_bytes h as))) (store_of xs cp)
          = Some (store_of (xs @ [sample_of h c (attr_payload a)])
              (if length xs = cp then 2 * cp else cp)))
    \<and> family (sample_of h c (attr_payload a)) = c_family c
    \<and> sport (sample_of h c (attr_payload a)) = c_sport c
    \<and> dport (sample_of h c (attr_payload a)) = c_dport c
    \<and> info (sample_of h c (attr_payload a)) = take (sizeof_tcp_info h) (attr_payload a)
    \<and> (if c_family c = AF_INET
        then saddr (sample_of h c (attr_payload a)) = take 4 (c_src c) @ replicate 12 0
           \<and> daddr (sample_of h c (attr_payload a)) = take 4 (c_dst c) @ replicate 12 0
        else saddr (sample_of h c (attr_payload a)) = c_src c
           \<and> daddr (sample_of h c (attr_payload a)) = c_dst c)"
proof -
  let ?x = "sample_of h c (attr_payload a)"
  have pr: "parse_response h w b moff (int (length (attrs_bytes h as))) s' = append_sample w s' ?x"
    for s'
    using parse_response_attrs [OF mem fit ok, of w s']
    by (simp add: attr_samples_one [OF one])
  have "parse_response h w b moff (int (length (attrs_bytes h as))) (store_of xs cp)
      = Some (store_of (xs @ [?x]) (if length xs = cp then 2 * cp else cp))"
    if "length xs \<le> cp \<and> 16 \<le> cp \<and> cp < 2 ^ 32
        \<and> (length xs = cp \<longrightarrow> cp < 2 ^ 31 \<and> realloc_ok w (of_nat (2 * cp)))"
    unfolding pr using that by (intro append_store_of) simp_all
  with pr [of s] show ?thesis
    by (simp add: sample_of_def)
qed

text \<open>
  The connection of \<open>dump_world\<close> with an attribute of another tag, then the
  \<^verbatim>\<open>INET_DIAG_INFO\<close> attribute; the store is full, with 16 samples in 16 slots, and is
  doubled for the sample.
\<close>

theorem info_attribute_sample_witness:
  "holds (recv_into zero_mem (inet_diag_msg_bytes conn2 @ attrs_bytes host_le two_attrs)) 0
      (inet_diag_msg_bytes conn2 @ attrs_bytes host_le two_attrs)
   \<and> filter (\<lambda>a. attr_type a = INET_DIAG_INFO) two_attrs = [Attr INET_DIAG_INFO info1 []]
   \<and> parse_response host_le (world_of 72 [] True)
        (recv_into zero_mem (inet_diag_msg_bytes conn2 @ attrs_bytes host_le two_attrs)) 0
        (int (length (attrs_bytes host_le two_attrs)))
        (store_of (replicate 16 (sample_of host_le conn1 info2)) 16)
       = Some (store_of (replicate 16 (sample_of host_le conn1 info2)
                 @ [sample_of host_le conn2 info1]) 32)
   \<and> family (sample_of host_le conn2 info1) = AF_INET
   \<and> sport (sample_of host_le conn2 info1) = 40000
   \<and> dport (sample_of host_le conn2 info1) = 80
   \<and> saddr (sample_of host_le conn2 info1) = [10, 0, 0, 1] @ replicate 12 0
   \<and> daddr (sample_of host_le conn2 info1) = [10, 0, 0, 2] @ replicate 12 0
   \<and> info (sample_of host_le conn2 info1) = info1"
proof -
  let ?d = "inet_diag_msg_bytes conn2 @ attrs_bytes host_le two_attrs"
  let ?m = "recv_into zero_mem ?d"
  let ?xs = "replicate 16 (sample_of host_le conn1 info2)"
  have len: "length ?d = 96"
    by (simp add: length_inet_diag_msg_bytes conn2_facts two_attrs_ok)
  then have mem: "holds ?m 0 ?d"
    by (intro holds_recv_into) (simp add: sizeof_b_def)
  from len have fit: "0 + length ?d \<le> sizeof_b"
    by (simp add: sizeof_b_def)
  have store: "length ?xs \<le> 16 \<and> (16::nat) \<le> 16 \<and> (16::nat) < 2 ^ 32
      \<and> (length ?xs = 16 \<longrightarrow> (16::nat) < 2 ^ 31 \<and> realloc_ok (world_of 72 [] True) (of_nat (2 * 16)))"
    by (simp add: world_of_def)
  note r = info_attribute_sample [OF mem fit conn2_facts(1) two_attrs_ok(1,2),
      of "world_of 72 [] True" "store_of ?xs 16" ?xs 16]
  from r [THEN conjunct2, THEN conjunct1, THEN mp, OF store]
  have 1: "parse_response host_le (world_of 72 [] True) ?m 0
      (int (length (attrs_bytes host_le two_attrs))) (store_of ?xs 16)
      = Some (store_of (?xs @ [sample_of host_le conn2 info1]) 32)"
    by simp
  from r [THEN conjunct2, THEN conjunct2]
  have 2: "family (sample_of host_le conn2 info1) = AF_INET
      \<and> sport (sample_of host_le conn2 info1) = 40000
      \<and> dport (sample_of host_le conn2 info1) = 80
      \<and> saddr (sample_of host_le conn2 info1) = [10, 0, 0, 1] @ replicate 12 0
      \<and> daddr (sample_of host_le conn2 info1) = [10, 0, 0, 2] @ replicate 12 0
      \<and> info (sample_of host_le conn2 info1) = info1"
    by (simp add: conn2_facts host_le_def info1_def)
  from mem two_attrs_ok(2) 1 2 show ?thesis
    by (intro conjI) simp_all
qed


text \<open>
  The length of the payload is not looked at: \<open>info\<close> is always
  \<^verbatim>\<open>sizeof(struct tcp_info)\<close> bytes, 8 for \<open>host_le\<close>. For a payload of 12 bytes it is
  the first 8 of them. For a payload of 4 bytes it is the payload and the 4 bytes that follow
  the attribute in the buffer.
\<close>

theorem payload_size_counterexample:
  "parse_response host_le (world_of 72 [] True)
      (recv_into zero_mem (inet_diag_msg_bytes conn1 @ attrs_bytes host_le [long_info])) 0
      (int (length (attrs_bytes host_le [long_info]))) (store_of [] 16)
     = Some (store_of [sample_of host_le conn1 (attr_payload long_info)] 16)
   \<and> attr_payload long_info = info1 @ [9, 9, 9, 9]
   \<and> info (sample_of host_le conn1 (attr_payload long_info)) = info1
   \<and> attrs_bytes host_le [short_info] = rtattr_bytes host_le short_info
   \<and> length (rtattr_bytes host_le short_info) = 8
   \<and> parse_response host_le (world_of 72 [] True)
        (recv_into zero_mem
           (inet_diag_msg_bytes conn1 @ rtattr_bytes host_le short_info @ [9, 9, 9, 9])) 0 8
        (store_of [] 16)
       = Some (store_of [sample_of host_le conn1 ([1, 2, 3, 4] @ [9, 9, 9, 9])] 16)
   \<and> attr_payload short_info = [1, 2, 3, 4]
   \<and> info (sample_of host_le conn1 ([1, 2, 3, 4] @ [9, 9, 9, 9])) = [1, 2, 3, 4, 9, 9, 9, 9]"
  using long_payload_eval short_payload_eval by (intro conjI) simp_all

subsection \<open>A malformed attribute\<close>



end
